theory Spec2Isabelle
  imports Main "HOL-Library.Word"
begin

section \<open>Bytes and the struct module\<close>

text \<open>
  A Python \<open>bytes\<close> object is a list of 8-bit words. Python integers are unbounded and
  are modelled by \<open>int\<close>; \<open>struct.pack\<close> raises \<open>struct.error\<close> on a value outside
  the range of its format character, and \<open>struct.unpack\<close> raises it on a buffer of the
  wrong length. Every raise of the source is a value \<open>Inl e\<close> of the result type.
\<close>

type_synonym byte = "8 word"
type_synonym bytes = "byte list"

datatype error =
    ValueError string
  | StructError
  | IndexError
  | KeyError
  | TypeError
  | AttributeError
  | OpenError
  | LZ4BlockError
  | CodecError

text \<open>Sequencing of fallible steps: the first raise wins.\<close>

definition bind :: "error + 'a \<Rightarrow> ('a \<Rightarrow> error + 'b) \<Rightarrow> error + 'b" where
  "bind m f = (case m of Inl e \<Rightarrow> Inl e | Inr x \<Rightarrow> f x)"

text \<open>\<open>xs[a:b]\<close> for non-negative \<open>a\<close> and \<open>b\<close>: clipped to the sequence, never raising.\<close>

definition slice :: "'a list \<Rightarrow> nat \<Rightarrow> nat \<Rightarrow> 'a list" where
  "slice xs a b = take (b - a) (drop a xs)"

text \<open>Little-endian encoding of an integer on \<open>n\<close> bytes, and its decoding.\<close>

fun le_bytes :: "nat \<Rightarrow> int \<Rightarrow> bytes" where
  "le_bytes 0 v = []"
| "le_bytes (Suc n) v = word_of_int v # le_bytes n (v div 256)"

fun le_int :: "bytes \<Rightarrow> int" where
  "le_int [] = 0"
| "le_int (b # bs) = uint b + 256 * le_int bs"

text \<open>\<open>struct.pack("<I", v)\<close>, \<open>struct.pack("<Q", v)\<close> and \<open>struct.pack("<i", v)\<close>.\<close>

definition pack_I :: "int \<Rightarrow> error + bytes" where
  "pack_I v = (if 0 \<le> v \<and> v < 2 ^ 32 then Inr (le_bytes 4 v) else Inl StructError)"

definition pack_Q :: "int \<Rightarrow> error + bytes" where
  "pack_Q v = (if 0 \<le> v \<and> v < 2 ^ 64 then Inr (le_bytes 8 v) else Inl StructError)"

definition pack_i :: "int \<Rightarrow> error + bytes" where
  "pack_i v =
     (if - (2 ^ 31) \<le> v \<and> v < 2 ^ 31 then Inr (le_bytes 4 (v mod 2 ^ 32)) else Inl StructError)"

text \<open>\<open>struct.pack("<16s", b)\<close>: truncated or padded with zero bytes to 16 bytes.\<close>

definition pack_16s :: "bytes \<Rightarrow> bytes" where
  "pack_16s b = take 16 b @ replicate (16 - length b) 0"

text \<open>Reading one unsigned or signed little-endian field of 4 bytes.\<close>

definition unpack_I :: "bytes \<Rightarrow> int" where
  "unpack_I b = le_int b"

definition unpack_i :: "bytes \<Rightarrow> int" where
  "unpack_i b = (let u = le_int b in if u < 2 ^ 31 then u else u - 2 ^ 32)"

subsection \<open>\<open>bytes.hex\<close> and \<open>bytes.fromhex\<close>\<close>

definition hexdigit :: "nat \<Rightarrow> char" where
  "hexdigit n = ''0123456789abcdef'' ! n"

fun hex :: "bytes \<Rightarrow> string" where
  "hex [] = []"
| "hex (b # bs) = hexdigit (unat b div 16) # hexdigit (unat b mod 16) # hex bs"

definition unhexdigit :: "char \<Rightarrow> nat option" where
  "unhexdigit c =
     (if c \<in> set ''0123456789'' then Some (of_char c - 48)
      else if c \<in> set ''abcdef'' then Some (of_char c - 87)
      else if c \<in> set ''ABCDEF'' then Some (of_char c - 55)
      else None)"

definition is_space :: "char \<Rightarrow> bool" where
  "is_space c = (of_char c \<in> {9, 10, 11, 12, 13, 32 :: nat})"

text \<open>
  \<open>bytes.fromhex\<close>: two hexadecimal digits per byte, ASCII whitespace skipped between
  the bytes, \<open>ValueError\<close> on anything else.
\<close>

fun fromhex :: "string \<Rightarrow> error + bytes" where
  "fromhex [] = Inr []"
| "fromhex [c] = (if is_space c then Inr [] else Inl (ValueError ''non-hexadecimal number found in fromhex() arg''))"
| "fromhex (c # d # cs) =
     (if is_space c then fromhex (d # cs)
      else case (unhexdigit c, unhexdigit d) of
        (Some h, Some l) \<Rightarrow> bind (fromhex cs) (\<lambda>r. Inr (of_nat (16 * h + l) # r))
      | _ \<Rightarrow> Inl (ValueError ''non-hexadecimal number found in fromhex() arg''))"

section \<open>The file header\<close>

text \<open>
  \<open>TileFile.header\<close> is a dictionary with ten fixed keys; the key \<open>"type"\<close> is the
  field \<open>v_type\<close> here. The uuid is kept as the hexadecimal string the source stores.
\<close>

record header =
  version :: int
  uuid :: string
  creator_id :: int
  width :: int
  height :: int
  cell_header_offset :: int
  cell_header_size :: int
  some_val1 :: int
  some_val2 :: int
  v_type :: int

definition MAGIC_KEY :: int where
  "MAGIC_KEY = 0x454C4954"

definition CELL_HEADER_SIZE :: nat where
  "CELL_HEADER_SIZE = 97"

definition CELL_DATA_SIZE :: nat where
  "CELL_DATA_SIZE = 388"

text \<open>
  \<open>struct.calcsize("<I I 16s Q I I I I I I I")\<close>: the format has no padding, so its
  size is the sum of the sizes of its eleven fields.
\<close>

definition header_format_sizes :: "nat list" where
  "header_format_sizes = [4, 4, 16, 8, 4, 4, 4, 4, 4, 4, 4]"

definition header_calcsize :: nat where
  "header_calcsize = sum_list header_format_sizes"

text \<open>
  \<open>parse_header\<close>: \<open>struct.unpack_from(header_format, data, 0)\<close> raises when the buffer
  is shorter than the format; the fields are then read at their offsets, and the magic
  key is compared.
\<close>

definition parse_header :: "bytes \<Rightarrow> error + header" where
  "parse_header data =
     (if length data < header_calcsize then Inl StructError
      else
        let magic_key = unpack_I (slice data 0 4);
            version = unpack_I (slice data 4 8);
            uuid = slice data 8 24;
            creator_id = le_int (slice data 24 32);
            width = unpack_I (slice data 32 36);
            height = unpack_I (slice data 36 40);
            cell_header_offset = unpack_I (slice data 40 44);
            cell_header_size = unpack_I (slice data 44 48);
            some_val1 = unpack_I (slice data 48 52);
            some_val2 = unpack_I (slice data 52 56);
            v_type = unpack_I (slice data 56 60)
        in if magic_key \<noteq> MAGIC_KEY
           then Inl (ValueError ''Invalid .tile file: Missing MAGIC_KEY'')
           else Inr \<lparr> version = version, uuid = hex uuid, creator_id = creator_id,
                      width = width, height = height,
                      cell_header_offset = cell_header_offset,
                      cell_header_size = cell_header_size,
                      some_val1 = some_val1, some_val2 = some_val2, v_type = v_type \<rparr>)"

text \<open>\<open>write_header\<close> appends the eleven packed fields to \<open>new_data\<close>.\<close>

definition write_header :: "header \<Rightarrow> bytes \<Rightarrow> error + bytes" where
  "write_header h new_data =
     bind (pack_I MAGIC_KEY) (\<lambda>b0.
     bind (pack_I (version h)) (\<lambda>b1.
     bind (fromhex (uuid h)) (\<lambda>u.
     bind (pack_Q (creator_id h)) (\<lambda>b3.
     bind (pack_I (width h)) (\<lambda>b4.
     bind (pack_I (height h)) (\<lambda>b5.
     bind (pack_I (cell_header_offset h)) (\<lambda>b6.
     bind (pack_I (cell_header_size h)) (\<lambda>b7.
     bind (pack_I (some_val1 h)) (\<lambda>b8.
     bind (pack_I (some_val2 h)) (\<lambda>b9.
     bind (pack_I (v_type h)) (\<lambda>b10.
       Inr (new_data @ b0 @ b1 @ pack_16s u @ b3 @ b4 @ b5 @ b6 @ b7 @ b8 @ b9 @ b10))))))))))))"

section \<open>Cell headers\<close>

text \<open>
  A cell header is a dictionary with twelve fixed keys, iterated in insertion order
  (\<open>categories\<close>); each value is a dictionary with the keys \<open>index\<close>,
  \<open>compressed\<close>, \<open>size\<close> and, for ten of the categories, \<open>count\<close>. A value of
  these is an integer or a sequence of integers (a tuple after parsing, a list once
  \<open>write_file\<close> has assigned to one of its items).
\<close>

datatype category =
    Mip | Clutter | Assets | Blueprint | Node | Script | Prefab | Decal
  | Harvestable | Kinematics | Unknown | Voxel_terrain

definition categories :: "category list" where
  "categories = [Mip, Clutter, Assets, Blueprint, Node, Script, Prefab, Decal,
                 Harvestable, Kinematics, Unknown, Voxel_terrain]"

datatype field = Single int | Multi "int list"

record chunk_header =
  ch_count :: "field option"
  ch_index :: field
  ch_compressed :: field
  ch_size :: field

type_synonym cell_header = "category \<Rightarrow> chunk_header"

text \<open>
  The cell format string, as the repeat count of each of its 43 items; every item is a
  little-endian signed 32-bit integer.
\<close>

definition cell_format :: "nat list" where
  "cell_format = [6, 6, 6, 1, 1, 1, 4, 4, 4, 4,
                  1, 1, 1, 1, 1, 1, 1, 1, 1, 1, 1, 1, 1, 1, 1, 1, 1, 1, 1, 1,
                  4, 4, 4, 4, 4, 4, 4, 4, 4, 1, 1, 1, 1]"

text \<open>
  \<open>struct.unpack(fmt, buf)\<close> for a format of \<open>i\<close> items: the buffer must have exactly
  the size of the format; the items are read one after the other, four bytes each, and
  the result has one integer per item.
\<close>

fun chunks4 :: "bytes \<Rightarrow> bytes list" where
  "chunks4 (a # b # c # d # rest) = [a, b, c, d] # chunks4 rest"
| "chunks4 rest = []"

definition struct_unpack_i :: "nat list \<Rightarrow> bytes \<Rightarrow> error + int list" where
  "struct_unpack_i fmt buf =
     (if length buf \<noteq> 4 * sum_list fmt then Inl StructError
      else Inr (map unpack_i (chunks4 buf)))"

text \<open>
  \<open>struct.pack(fmt, *args)\<close> for a format of \<open>i\<close> items: as many arguments as items,
  each an integer in range.
\<close>

fun pack_all_i :: "field list \<Rightarrow> error + bytes" where
  "pack_all_i [] = Inr []"
| "pack_all_i (Single v # fs) = bind (pack_i v) (\<lambda>b. bind (pack_all_i fs) (\<lambda>r. Inr (b @ r)))"
| "pack_all_i (Multi xs # fs) = Inl StructError"

definition struct_pack_i :: "nat list \<Rightarrow> field list \<Rightarrow> error + bytes" where
  "struct_pack_i fmt args =
     (if length args \<noteq> sum_list fmt then Inl StructError else pack_all_i args)"

definition cell_header_of :: "int list \<Rightarrow> cell_header" where
  "cell_header_of unpacked = (\<lambda>c. case c of
       Mip \<Rightarrow> \<lparr> ch_count = None,
                 ch_index = Multi (slice unpacked 0 6),
                 ch_compressed = Multi (slice unpacked 6 12),
                 ch_size = Multi (slice unpacked 12 18) \<rparr>
     | Clutter \<Rightarrow> \<lparr> ch_count = None,
                     ch_index = Single (unpacked ! 18),
                     ch_compressed = Single (unpacked ! 19),
                     ch_size = Single (unpacked ! 20) \<rparr>
     | Assets \<Rightarrow> \<lparr> ch_count = Some (Multi (slice unpacked 21 25)),
                    ch_index = Multi (slice unpacked 25 29),
                    ch_compressed = Multi (slice unpacked 29 33),
                    ch_size = Multi (slice unpacked 33 37) \<rparr>
     | Blueprint \<Rightarrow> \<lparr> ch_count = Some (Single (unpacked ! 37)),
                       ch_index = Single (unpacked ! 38),
                       ch_compressed = Single (unpacked ! 39),
                       ch_size = Single (unpacked ! 40) \<rparr>
     | Node \<Rightarrow> \<lparr> ch_count = Some (Single (unpacked ! 41)),
                  ch_index = Single (unpacked ! 42),
                  ch_compressed = Single (unpacked ! 43),
                  ch_size = Single (unpacked ! 44) \<rparr>
     | Script \<Rightarrow> \<lparr> ch_count = Some (Single (unpacked ! 45)),
                    ch_index = Single (unpacked ! 46),
                    ch_compressed = Single (unpacked ! 47),
                    ch_size = Single (unpacked ! 48) \<rparr>
     | Prefab \<Rightarrow> \<lparr> ch_count = Some (Single (unpacked ! 49)),
                    ch_index = Single (unpacked ! 50),
                    ch_compressed = Single (unpacked ! 51),
                    ch_size = Single (unpacked ! 52) \<rparr>
     | Decal \<Rightarrow> \<lparr> ch_count = Some (Single (unpacked ! 53)),
                   ch_index = Single (unpacked ! 54),
                   ch_compressed = Single (unpacked ! 55),
                   ch_size = Single (unpacked ! 56) \<rparr>
     | Harvestable \<Rightarrow> \<lparr> ch_count = Some (Multi (slice unpacked 57 61)),
                         ch_index = Multi (slice unpacked 61 65),
                         ch_compressed = Multi (slice unpacked 65 69),
                         ch_size = Multi (slice unpacked 69 73) \<rparr>
     | Kinematics \<Rightarrow> \<lparr> ch_count = Some (Multi (slice unpacked 73 77)),
                        ch_index = Multi (slice unpacked 77 81),
                        ch_compressed = Multi (slice unpacked 81 85),
                        ch_size = Multi (slice unpacked 85 89) \<rparr>
     | Unknown \<Rightarrow> \<lparr> ch_count = Some (Single (unpacked ! 89)),
                     ch_index = Single (unpacked ! 90),
                     ch_compressed = Single (unpacked ! 91),
                     ch_size = Single (unpacked ! 92) \<rparr>
     | Voxel_terrain \<Rightarrow> \<lparr> ch_count = Some (Single (unpacked ! 93)),
                           ch_index = Single (unpacked ! 94),
                           ch_compressed = Single (unpacked ! 95),
                           ch_size = Single (unpacked ! 96) \<rparr>)"

text \<open>
  \<open>parse_cell_header\<close>: unpack, compare the number of integers with
  \<open>CELL_HEADER_SIZE\<close>, build the dictionary. The indices 18 to 96 read below are in
  range once that comparison has passed.
\<close>

definition parse_cell_header :: "bytes \<Rightarrow> error + cell_header" where
  "parse_cell_header cell_data =
     bind (struct_unpack_i cell_format cell_data) (\<lambda>unpacked.
       if length unpacked \<noteq> CELL_HEADER_SIZE
       then Inl (ValueError ''Invalid .tile file: Cell Header size mismatch'')
       else Inr (cell_header_of unpacked))"

text \<open>
  The accesses of \<open>create_cell_header\<close>: \<open>x[i]\<close> raises \<open>TypeError\<close> on an integer and
  \<open>IndexError\<close> out of range; \<open>d["count"]\<close> raises \<open>KeyError\<close> when the key is missing.
\<close>

definition item :: "field \<Rightarrow> nat \<Rightarrow> error + int" where
  "item f i = (case f of
       Single v \<Rightarrow> Inl TypeError
     | Multi xs \<Rightarrow> if i < length xs then Inr (xs ! i) else Inl IndexError)"

definition count_of :: "chunk_header \<Rightarrow> error + field" where
  "count_of ch = (case ch_count ch of None \<Rightarrow> Inl KeyError | Some f \<Rightarrow> Inr f)"

fun sequence :: "(error + 'a) list \<Rightarrow> error + 'a list" where
  "sequence [] = Inr []"
| "sequence (m # ms) = bind m (\<lambda>x. bind (sequence ms) (\<lambda>xs. Inr (x # xs)))"

definition items :: "error + field \<Rightarrow> nat \<Rightarrow> (error + field) list" where
  "items m n = map (\<lambda>i. bind m (\<lambda>f. bind (item f i) (\<lambda>v. Inr (Single v)))) [0..<n]"

definition cell_data_of :: "cell_header \<Rightarrow> (error + field) list" where
  "cell_data_of header =
     items (Inr (ch_index (header Mip))) 6
     @ items (Inr (ch_compressed (header Mip))) 6
     @ items (Inr (ch_size (header Mip))) 6
     @ [Inr (ch_index (header Clutter)), Inr (ch_compressed (header Clutter)),
        Inr (ch_size (header Clutter))]
     @ items (count_of (header Assets)) 4
     @ items (Inr (ch_index (header Assets))) 4
     @ items (Inr (ch_compressed (header Assets))) 4
     @ items (Inr (ch_size (header Assets))) 4
     @ concat (map (\<lambda>c. [count_of (header c), Inr (ch_index (header c)),
                          Inr (ch_compressed (header c)), Inr (ch_size (header c))])
         [Blueprint, Node, Script, Prefab, Decal])
     @ items (count_of (header Harvestable)) 4
     @ items (Inr (ch_index (header Harvestable))) 4
     @ items (Inr (ch_compressed (header Harvestable))) 4
     @ items (Inr (ch_size (header Harvestable))) 4
     @ items (count_of (header Kinematics)) 4
     @ items (Inr (ch_index (header Kinematics))) 4
     @ items (Inr (ch_compressed (header Kinematics))) 4
     @ items (Inr (ch_size (header Kinematics))) 4
     @ concat (map (\<lambda>c. [count_of (header c), Inr (ch_index (header c)),
                          Inr (ch_compressed (header c)), Inr (ch_size (header c))])
         [Unknown, Voxel_terrain])"

definition create_cell_header :: "cell_header \<Rightarrow> error + bytes" where
  "create_cell_header header =
     bind (sequence (cell_data_of header)) (\<lambda>cell_data. struct_pack_i cell_format cell_data)"

section \<open>Chunks and the tile\<close>

text \<open>
  The collaborators that are not part of the container code are parameters: the LZ4 block
  codec (\<open>lz4.block.decompress(src, uncompressed_size=n)\<close> and
  \<open>lz4.block.compress(src, mode="high_compression", store_size=False)\<close>), the
  reader and writer of the \<open>mip\<close> category (module \<open>readwrite.mip\<close>), and the content of
  the files that \<open>open\<close> can read. The type \<open>'d\<close> is the type of a decoded payload.
  The last parameter says how the module is run, which decides what the name
  \<open>__builtins__\<close> is bound to: the module \<open>builtins\<close> when \<open>main.py\<close> is the program
  itself (\<open>__main__\<close>), the dictionary of that module when \<open>main.py\<close> is imported.
\<close>

record meta =
  m_index :: int
  m_compressed :: int
  m_size :: int
  m_count :: "int option"

record 'd env =
  lz4_decompress :: "bytes \<Rightarrow> int \<Rightarrow> error + bytes"
  lz4_compress :: "bytes \<Rightarrow> error + bytes"
  read_mip :: "bytes \<Rightarrow> meta \<Rightarrow> error + 'd"
  write_mip :: "'d option \<Rightarrow> meta \<Rightarrow> error + bytes"
  file_contents :: "string \<Rightarrow> bytes option"
  builtins_is_module :: bool

record 'd SubCellData =
  sc_type :: category
  sc_original_data :: bytes
  sc_data :: "'d option"
  sc_meta_data :: meta

text \<open>
  An entry of \<open>world_data\<close> is the tuple \<open>(index, size, compressed)\<close> for an absent
  chunk, or a \<open>SubCellData\<close> object.
\<close>

datatype 'd sub_cell = Placeholder int int int | Chunk "'d SubCellData"

type_synonym 'd cell = "category \<Rightarrow> 'd sub_cell list"

record 'd TileFile =
  file_path :: "string option"
  header :: "header option"
  cell_headers :: "cell_header list"
  world_data :: "'d cell list"
  original_data :: "bytes option"

text \<open>\<open>TileFile(file_path)\<close>.\<close>

definition init :: "string option \<Rightarrow> 'd TileFile" where
  "init fp = \<lparr> file_path = fp, header = None, cell_headers = [], world_data = [],
              original_data = None \<rparr>"

text \<open>The table \<open>read_write_functions\<close>: only \<open>"mip"\<close> is registered.\<close>

definition read_write_functions ::
  "'d env \<Rightarrow> category \<Rightarrow>
     ((bytes \<Rightarrow> meta \<Rightarrow> error + 'd) \<times> ('d option \<Rightarrow> meta \<Rightarrow> error + bytes)) option" where
  "read_write_functions env c = (if c = Mip then Some (read_mip env, write_mip env) else None)"

text \<open>\<open>SubCellData.decode\<close> and \<open>SubCellData.encode\<close>.\<close>

definition decode ::
  "'d SubCellData \<Rightarrow> (bytes \<Rightarrow> meta \<Rightarrow> error + 'd) \<Rightarrow> error + 'd SubCellData" where
  "decode sc decode_func =
     bind (decode_func (sc_original_data sc) (sc_meta_data sc)) (\<lambda>d. Inr (sc\<lparr>sc_data := Some d\<rparr>))"

definition encode ::
  "'d SubCellData \<Rightarrow> ('d option \<Rightarrow> meta \<Rightarrow> error + bytes) option \<Rightarrow> error + bytes" where
  "encode sc encode_func = (case encode_func of
       None \<Rightarrow> Inr (sc_original_data sc)
     | Some f \<Rightarrow> f (sc_data sc) (sc_meta_data sc))"

text \<open>
  The static method \<open>_decode_cell_chunk\<close>. The slice bounds are positive where the slice
  is taken.
\<close>

definition decode_cell_chunk0 ::
  "'d env \<Rightarrow> bytes \<Rightarrow> int \<Rightarrow> int \<Rightarrow> int \<Rightarrow> int option \<Rightarrow> category \<Rightarrow>
     (bytes \<Rightarrow> meta \<Rightarrow> error + 'd) option \<Rightarrow> error + 'd sub_cell" where
  "decode_cell_chunk0 env data index size' compressed count header_name parse_function =
     (if index \<le> 0 \<or> compressed \<le> 0 then Inr (Placeholder index size' compressed)
      else
        let compressed_data = slice data (nat index) (nat (index + compressed))
        in bind (lz4_decompress env compressed_data size') (\<lambda>decompressed_data.
             let meta = \<lparr> m_index = index, m_compressed = compressed, m_size = size',
                          m_count = count \<rparr>;
                 sub_cell = \<lparr> sc_type = header_name, sc_original_data = decompressed_data,
                              sc_data = None, sc_meta_data = meta \<rparr>
             in case parse_function of
                  None \<Rightarrow> Inr (Chunk sub_cell)
                | Some f \<Rightarrow> bind (decode sub_cell f) (\<lambda>sc. Inr (Chunk sc))))"

text \<open>An integer where the code needs one: a sequence there raises \<open>TypeError\<close>.\<close>

definition the_int :: "field \<Rightarrow> error + int" where
  "the_int f = (case f of Single v \<Rightarrow> Inr v | Multi xs \<Rightarrow> Inl TypeError)"

text \<open>
  \<open>decode_cell_chunk\<close>, applied to the cell headers that \<open>parse_cell_header\<close> built, whose
  sequences are tuples: one chunk per level of a tuple, one chunk for an integer.
\<close>

definition decode_level ::
  "'d env \<Rightarrow> bytes \<Rightarrow> chunk_header \<Rightarrow> category \<Rightarrow>
     (bytes \<Rightarrow> meta \<Rightarrow> error + 'd) option \<Rightarrow> nat \<Rightarrow> error + 'd sub_cell" where
  "decode_level env data chd header_name parse_function level =
     bind (item (ch_index chd) level) (\<lambda>index.
     bind (item (ch_size chd) level) (\<lambda>size'.
     bind (item (ch_compressed chd) level) (\<lambda>compressed_size.
     bind (case ch_count chd of None \<Rightarrow> Inr None
           | Some f \<Rightarrow> bind (item f level) (\<lambda>c. Inr (Some c))) (\<lambda>count.
       decode_cell_chunk0 env data index size' compressed_size count header_name
         parse_function))))"

definition decode_cell_chunk ::
  "'d env \<Rightarrow> bytes \<Rightarrow> cell_header \<Rightarrow> category \<Rightarrow>
     (bytes \<Rightarrow> meta \<Rightarrow> error + 'd) option \<Rightarrow> error + 'd sub_cell list" where
  "decode_cell_chunk env data cell_header header_name parse_function =
     (let cell_header_data = cell_header header_name
      in case ch_index cell_header_data of
           Multi idxs \<Rightarrow>
             sequence (map (decode_level env data cell_header_data header_name parse_function)
               [0..<length idxs])
         | Single index \<Rightarrow>
             bind (the_int (ch_size cell_header_data)) (\<lambda>size'.
             bind (the_int (ch_compressed cell_header_data)) (\<lambda>compressed_size.
             bind (case ch_count cell_header_data of None \<Rightarrow> Inr None
                   | Some f \<Rightarrow> bind (the_int f) (\<lambda>c. Inr (Some c))) (\<lambda>count.
             bind (decode_cell_chunk0 env data index size' compressed_size count header_name
                     parse_function) (\<lambda>sc. Inr [sc])))))"

section \<open>Reading\<close>

text \<open>
  \<open>parse_cell_headers\<close> appends one header per cell; a raise leaves the headers parsed so
  far in the object. The offset and the size come from unsigned fields.
\<close>

fun parse_cell_headers_loop ::
  "bytes \<Rightarrow> nat \<Rightarrow> nat \<Rightarrow> nat \<Rightarrow> cell_header list \<Rightarrow> cell_header list \<times> error option" where
  "parse_cell_headers_loop data offset cell_size 0 acc = (acc, None)"
| "parse_cell_headers_loop data offset cell_size (Suc n) acc =
     (case parse_cell_header (slice data offset (offset + cell_size)) of
        Inl e \<Rightarrow> (acc, Some e)
      | Inr cell_header \<Rightarrow>
          parse_cell_headers_loop data (offset + cell_size) cell_size n (acc @ [cell_header]))"

definition parse_cell_headers :: "header \<Rightarrow> bytes \<Rightarrow> cell_header list \<times> error option" where
  "parse_cell_headers h data =
     (let offset = cell_header_offset h;
          cell_size = cell_header_size h;
          cell_count = width h * height h
      in parse_cell_headers_loop data (nat offset) (nat cell_size) (nat cell_count) [])"

text \<open>The dictionary of one cell, filled category by category.\<close>

fun decode_categories ::
  "'d env \<Rightarrow> bytes \<Rightarrow> cell_header \<Rightarrow> category list \<Rightarrow> 'd cell \<Rightarrow> error + 'd cell" where
  "decode_categories env data cell_header [] cell_header_data = Inr cell_header_data"
| "decode_categories env data cell_header (data_type # rest) cell_header_data =
     bind (decode_cell_chunk env data cell_header data_type
             (map_option fst (read_write_functions env data_type))) (\<lambda>cell_data.
       decode_categories env data cell_header rest (cell_header_data(data_type := cell_data)))"

fun decode_cells ::
  "'d env \<Rightarrow> bytes \<Rightarrow> cell_header list \<Rightarrow> 'd cell list \<Rightarrow> 'd cell list \<times> error option" where
  "decode_cells env data [] acc = (acc, None)"
| "decode_cells env data (cell_header # rest) acc =
     (case decode_categories env data cell_header categories (\<lambda>_. []) of
        Inl e \<Rightarrow> (acc, Some e)
      | Inr cell_header_data \<Rightarrow> decode_cells env data rest (acc @ [cell_header_data]))"

text \<open>\<open>open(self.file_path, "rb").read()\<close>.\<close>

definition open_read :: "'d env \<Rightarrow> string option \<Rightarrow> error + bytes" where
  "open_read env fp = (case fp of
       None \<Rightarrow> Inl TypeError
     | Some p \<Rightarrow> (case file_contents env p of None \<Rightarrow> Inl OpenError | Some b \<Rightarrow> Inr b))"

text \<open>
  \<open>read_file\<close> on a freshly constructed \<open>TileFile(file_path)\<close>. The result is the object
  as the call leaves it and the exception raised, if any.
\<close>

definition read_file ::
  "'d env \<Rightarrow> string option \<Rightarrow> bytes option \<Rightarrow> 'd TileFile \<times> error option" where
  "read_file env fp raw_input_bytes =
     (let self = init fp
      in case (if raw_input_bytes = None \<or> raw_input_bytes = Some []
               then open_read env fp else Inr (the raw_input_bytes)) of
           Inl e \<Rightarrow> (self, Some e)
         | Inr data \<Rightarrow>
            (let self = self\<lparr>original_data := Some data\<rparr>
             in case parse_header data of
                  Inl e \<Rightarrow> (self, Some e)
                | Inr h \<Rightarrow>
                   (let self = self\<lparr>header := Some h\<rparr>
                    in case parse_cell_headers h data of
                         (chs, Some e) \<Rightarrow> (self\<lparr>cell_headers := chs\<rparr>, Some e)
                       | (chs, None) \<Rightarrow>
                          (let self = self\<lparr>cell_headers := chs\<rparr>
                           in case decode_cells env data chs [] of
                                (wd, err) \<Rightarrow> (self\<lparr>world_data := wd\<rparr>, err)))))"

section \<open>The round-trip validator\<close>

text \<open>
  The warnings that \<open>__validate_write\<close> prints while it inspects a tile whose re-parsing
  raised.
\<close>

datatype warning =
    HeaderMismatch string
  | CellHeaderMismatch nat category
  | CellHeaderOverflow nat category int nat

text \<open>The keys of \<open>tile.header\<close> whose values differ from those of \<open>self.header\<close>.\<close>

definition header_mismatches :: "header \<Rightarrow> header \<Rightarrow> warning list" where
  "header_mismatches self_header tile_header =
     (if version self_header \<noteq> version tile_header then [HeaderMismatch ''version''] else [])
     @ (if uuid self_header \<noteq> uuid tile_header then [HeaderMismatch ''uuid''] else [])
     @ (if creator_id self_header \<noteq> creator_id tile_header
        then [HeaderMismatch ''creator_id''] else [])
     @ (if width self_header \<noteq> width tile_header then [HeaderMismatch ''width''] else [])
     @ (if height self_header \<noteq> height tile_header then [HeaderMismatch ''height''] else [])
     @ (if cell_header_offset self_header \<noteq> cell_header_offset tile_header
        then [HeaderMismatch ''cell_header_offset''] else [])
     @ (if cell_header_size self_header \<noteq> cell_header_size tile_header
        then [HeaderMismatch ''cell_header_size''] else [])
     @ (if some_val1 self_header \<noteq> some_val1 tile_header
        then [HeaderMismatch ''some_val1''] else [])
     @ (if some_val2 self_header \<noteq> some_val2 tile_header
        then [HeaderMismatch ''some_val2''] else [])
     @ (if v_type self_header \<noteq> v_type tile_header then [HeaderMismatch ''type''] else [])"

text \<open>
  One value of a chunk dictionary against the true one: two integers are skipped, two
  sequences are compared as tuples, and \<open>tuple\<close> of an integer raises \<open>TypeError\<close>.
\<close>

definition field_mismatch :: "field \<Rightarrow> field \<Rightarrow> error + bool" where
  "field_mismatch v true_value = (case (v, true_value) of
       (Single a, Single b) \<Rightarrow> Inr False
     | (Multi a, Multi b) \<Rightarrow> Inr (a \<noteq> b)
     | _ \<Rightarrow> Inl TypeError)"

definition chunk_is_invalid :: "chunk_header \<Rightarrow> chunk_header \<Rightarrow> error + bool" where
  "chunk_is_invalid chunk true_chunk =
     bind (sequence
       ((case ch_count chunk of None \<Rightarrow> []
         | Some v \<Rightarrow> [bind (count_of true_chunk) (field_mismatch v)])
        @ [field_mismatch (ch_index chunk) (ch_index true_chunk),
           field_mismatch (ch_compressed chunk) (ch_compressed true_chunk),
           field_mismatch (ch_size chunk) (ch_size true_chunk)]))
       (\<lambda>bs. Inr (True \<in> set bs))"

fun mismatch_categories ::
  "nat \<Rightarrow> cell_header \<Rightarrow> cell_header \<Rightarrow> category list \<Rightarrow> warning list \<times> error option" where
  "mismatch_categories cell_index cell_header true_header [] = ([], None)"
| "mismatch_categories cell_index cell_header true_header (key # keys) =
     (case chunk_is_invalid (cell_header key) (true_header key) of
        Inl e \<Rightarrow> ([], Some e)
      | Inr b \<Rightarrow>
          (case mismatch_categories cell_index cell_header true_header keys of
             (ws, err) \<Rightarrow> ((if b then [CellHeaderMismatch cell_index key] else []) @ ws, err)))"

fun mismatch_cells ::
  "cell_header list \<Rightarrow> nat \<Rightarrow> cell_header list \<Rightarrow> warning list \<times> error option" where
  "mismatch_cells self_cell_headers cell_index [] = ([], None)"
| "mismatch_cells self_cell_headers cell_index (cell_header # rest) =
     (if cell_index \<ge> length self_cell_headers then ([], Some IndexError)
      else case mismatch_categories cell_index cell_header (self_cell_headers ! cell_index)
                  categories of
             (ws, Some e) \<Rightarrow> (ws, Some e)
           | (ws, None) \<Rightarrow>
               (case mismatch_cells self_cell_headers (Suc cell_index) rest of
                  (ws', err) \<Rightarrow> (ws @ ws', err)))"

text \<open>
  The overflow check of one chunk dictionary: the index and size pointers, and for each
  pointer \<open>last = index + compressed - 1\<close>, flagged when \<open>last >= len(new_data)\<close>.
\<close>

definition pointers :: "chunk_header \<Rightarrow> error + (int \<times> int) list" where
  "pointers chunk = (case ch_index chunk of
       Single index \<Rightarrow> bind (the_int (ch_compressed chunk)) (\<lambda>c. Inr [(index, c)])
     | Multi idxs \<Rightarrow>
         sequence (map (\<lambda>i. bind (item (ch_compressed chunk) i) (\<lambda>c. Inr (idxs ! i, c)))
           [0..<length idxs]))"

definition overflow_flags :: "nat \<Rightarrow> category \<Rightarrow> nat \<Rightarrow> (int \<times> int) list \<Rightarrow> warning list" where
  "overflow_flags cell_index key len ps =
     concat (map (\<lambda>(index, compressed).
        let last = index + compressed - 1
        in if last \<ge> int len then [CellHeaderOverflow cell_index key last len] else []) ps)"

fun overflow_categories ::
  "nat \<Rightarrow> nat \<Rightarrow> cell_header \<Rightarrow> category list \<Rightarrow> warning list \<times> error option" where
  "overflow_categories len cell_index cell_header [] = ([], None)"
| "overflow_categories len cell_index cell_header (key # keys) =
     (case pointers (cell_header key) of
        Inl e \<Rightarrow> ([], Some e)
      | Inr ps \<Rightarrow>
          (case overflow_categories len cell_index cell_header keys of
             (ws, err) \<Rightarrow> (overflow_flags cell_index key len ps @ ws, err)))"

fun overflow_cells :: "nat \<Rightarrow> nat \<Rightarrow> cell_header list \<Rightarrow> warning list \<times> error option" where
  "overflow_cells len cell_index [] = ([], None)"
| "overflow_cells len cell_index (cell_header # rest) =
     (case overflow_categories len cell_index cell_header categories of
        (ws, Some e) \<Rightarrow> (ws, Some e)
      | (ws, None) \<Rightarrow>
          (case overflow_cells len (Suc cell_index) rest of (ws', err) \<Rightarrow> (ws @ ws', err)))"

text \<open>
  The assignments \<open>__builtins__.print = fake_print\<close> and
  \<open>__builtins__.print = default_print\<close>: an attribute of the module \<open>builtins\<close> is set;
  a dictionary has no attribute \<open>print\<close> to set, and the assignment raises
  \<open>AttributeError\<close>.
\<close>

definition set_builtins_print :: "'d env \<Rightarrow> error + unit" where
  "set_builtins_print env = (if builtins_is_module env then Inr () else Inl AttributeError)"

text \<open>
  The \<open>try\<close> block of \<open>__validate_write\<close>: \<open>print\<close> is replaced, a new
  \<open>TileFile(None)\<close> reads \<open>new_data\<close>, \<open>print\<close> is restored. The result is the value of
  the variable \<open>tile\<close> when the block is left (\<open>None\<close> until the object is constructed)
  and the exception raised, if any.
\<close>

definition validate_try :: "'d env \<Rightarrow> bytes \<Rightarrow> 'd TileFile option \<times> error option" where
  "validate_try env new_data =
     (case set_builtins_print env of
        Inl e \<Rightarrow> (None, Some e)
      | Inr u \<Rightarrow>
         (case read_file env None (Some new_data) of
            (tile, Some e) \<Rightarrow> (Some tile, Some e)
          | (tile, None) \<Rightarrow>
             (case set_builtins_print env of
                Inl e \<Rightarrow> (Some tile, Some e)
              | Inr u \<Rightarrow> (Some tile, None))))"

text \<open>
  \<open>__validate_write\<close>: any exception of the \<open>try\<close> block sets \<open>validate_failed\<close>; the
  handler restores \<open>print\<close> and inspects what was parsed before the raise. The result is
  the warnings printed and either the boolean returned or the exception that escapes the
  handler.
\<close>

definition validate_write ::
  "'d env \<Rightarrow> 'd TileFile \<Rightarrow> bytes \<Rightarrow> warning list \<times> (error + bool)" where
  "validate_write env self new_data =
     (case validate_try env new_data of
        (tile, None) \<Rightarrow> ([], Inr True)
      | (tile, Some e) \<Rightarrow>
         (case set_builtins_print env of
            Inl e' \<Rightarrow> ([], Inl e')
          | Inr u \<Rightarrow>
             (case tile of
                None \<Rightarrow> ([], Inr False)
              | Some tile \<Rightarrow>
                 (case header tile of
                    None \<Rightarrow> ([], Inl AttributeError)
                  | Some tile_header \<Rightarrow>
                     (case header self of
                        None \<Rightarrow> ([], Inl TypeError)
                      | Some self_header \<Rightarrow>
                         (let ws1 = header_mismatches self_header tile_header
                          in case mismatch_cells (cell_headers self) 0 (cell_headers tile) of
                               (ws2, Some e2) \<Rightarrow> (ws1 @ ws2, Inl e2)
                             | (ws2, None) \<Rightarrow>
                                (case overflow_cells (length new_data) 0 (cell_headers tile) of
                                   (ws3, Some e3) \<Rightarrow> (ws1 @ ws2 @ ws3, Inl e3)
                                 | (ws3, None) \<Rightarrow> (ws1 @ ws2 @ ws3, Inr False))))))))"

section \<open>Writing\<close>

text \<open>\<open>x[i] = v\<close>: \<open>TypeError\<close> on an integer, \<open>IndexError\<close> out of range.\<close>

definition set_item :: "field \<Rightarrow> nat \<Rightarrow> int \<Rightarrow> error + field" where
  "set_item f i v = (case f of
       Single a \<Rightarrow> Inl TypeError
     | Multi xs \<Rightarrow> if i < length xs then Inr (Multi (xs[i := v])) else Inl IndexError)"

text \<open>
  The body of the innermost loop of \<open>write_file\<close> for one entry of \<open>world_data\<close>: a tuple
  is skipped; a chunk is encoded and compressed, its descriptor is assigned (by item for
  a sequence, after the tuples have become lists, as a whole for an integer), and the
  compressed bytes are appended to \<open>data_blob\<close>.
\<close>

definition write_sub_cell ::
  "'d env \<Rightarrow> nat \<Rightarrow> category \<Rightarrow> nat \<Rightarrow> 'd sub_cell \<Rightarrow> cell_header \<times> bytes \<Rightarrow>
     error + cell_header \<times> bytes" where
  "write_sub_cell env data_blob_offset data_type sub_cell_index sub_cell st =
     (case st of (cell_header, data_blob) \<Rightarrow>
      (case sub_cell of
         Placeholder a b c \<Rightarrow> Inr (cell_header, data_blob)
       | Chunk sc \<Rightarrow>
          (let chd = cell_header data_type;
               multiple_sub_cells = (case ch_index chd of Single a \<Rightarrow> False | Multi xs \<Rightarrow> True);
               encode_func = map_option snd (read_write_functions env data_type)
           in bind (encode sc encode_func) (\<lambda>raw_sub_cell_data.
              bind (lz4_compress env raw_sub_cell_data) (\<lambda>compressed_cell_data.
              bind (if multiple_sub_cells
                    then
                      bind (set_item (ch_index chd) sub_cell_index
                              (int (length data_blob) + int data_blob_offset)) (\<lambda>i'.
                      bind (set_item (ch_compressed chd) sub_cell_index
                              (int (length compressed_cell_data))) (\<lambda>c'.
                      bind (set_item (ch_size chd) sub_cell_index
                              (int (length raw_sub_cell_data))) (\<lambda>s'.
                        Inr (chd\<lparr>ch_index := i', ch_compressed := c', ch_size := s'\<rparr>))))
                    else
                      Inr (chd\<lparr>ch_index := Single (int (length data_blob) + int data_blob_offset),
                               ch_compressed := Single (int (length compressed_cell_data)),
                               ch_size := Single (int (length raw_sub_cell_data))\<rparr>))
                (\<lambda>chd'. Inr (cell_header(data_type := chd'),
                              data_blob @ compressed_cell_data)))))))"

fun write_sub_cells ::
  "'d env \<Rightarrow> nat \<Rightarrow> category \<Rightarrow> nat \<Rightarrow> 'd sub_cell list \<Rightarrow> cell_header \<times> bytes \<Rightarrow>
     error + cell_header \<times> bytes" where
  "write_sub_cells env off data_type sub_cell_index [] st = Inr st"
| "write_sub_cells env off data_type sub_cell_index (sub_cell # rest) st =
     bind (write_sub_cell env off data_type sub_cell_index sub_cell st)
       (write_sub_cells env off data_type (Suc sub_cell_index) rest)"

fun write_categories ::
  "'d env \<Rightarrow> nat \<Rightarrow> 'd cell \<Rightarrow> category list \<Rightarrow> cell_header \<times> bytes \<Rightarrow>
     error + cell_header \<times> bytes" where
  "write_categories env off cell [] st = Inr st"
| "write_categories env off cell (data_type # rest) st =
     bind (write_sub_cells env off data_type 0 (cell data_type) st)
       (write_categories env off cell rest)"

text \<open>
  The body of the loop over the cells: the chunks of the cell, then the cell header,
  spliced into \<open>new_data\<close> at \<open>cell_header_offset + CELL_DATA_SIZE * cell_index\<close>.
\<close>

definition write_cell ::
  "'d env \<Rightarrow> header \<Rightarrow> nat \<Rightarrow> nat \<Rightarrow> cell_header \<Rightarrow> 'd cell \<Rightarrow> bytes \<times> bytes \<Rightarrow>
     error + cell_header \<times> bytes \<times> bytes" where
  "write_cell env h off cell_index cell_header cell st =
     (case st of (new_data, data_blob) \<Rightarrow>
      bind (write_categories env off cell categories (cell_header, data_blob))
        (\<lambda>(cell_header', data_blob').
      bind (create_cell_header cell_header') (\<lambda>header_data.
        if length header_data \<noteq> CELL_DATA_SIZE
        then Inl (ValueError ''Header data is invalid size!'')
        else
          let start = cell_header_offset h + int (CELL_DATA_SIZE * cell_index);
              end = start + int CELL_DATA_SIZE
          in if int (length header_data) \<noteq> end - start
             then Inl (ValueError ''Header Data Does not match the cell size'')
             else if end > int (length new_data)
             then Inl (ValueError ''Invalid Header Index (Out of bounds)'')
             else Inr (cell_header',
                       take (nat start) new_data @ header_data @ drop (nat end) new_data,
                       data_blob'))))"

fun write_cells ::
  "'d env \<Rightarrow> header \<Rightarrow> nat \<Rightarrow> 'd cell list \<Rightarrow> nat \<Rightarrow> cell_header list \<Rightarrow> bytes \<times> bytes \<Rightarrow>
     error + cell_header list \<times> bytes \<times> bytes" where
  "write_cells env h off wd cell_index [] st = Inr ([], st)"
| "write_cells env h off wd cell_index (cell_header # rest) st =
     bind (write_cell env h off cell_index cell_header (wd ! cell_index) st)
       (\<lambda>(cell_header', st').
     bind (write_cells env h off wd (Suc cell_index) rest st') (\<lambda>(rest', st'').
       Inr (cell_header' # rest', st'')))"

text \<open>
  \<open>write_file\<close>. The result is the value returned, the bytes built (\<open>new_data\<close>, written
  to the output path when the value is \<open>True\<close>), the cell headers as the call leaves them
  in the object, and the warnings of the validator.
\<close>

record write_result =
  returned :: bool
  output_bytes :: bytes
  new_cell_headers :: "cell_header list"
  warnings :: "warning list"

definition write_file :: "'d env \<Rightarrow> 'd TileFile \<Rightarrow> bool \<Rightarrow> error + write_result" where
  "write_file env self validate =
     (case header self of
        None \<Rightarrow> Inl TypeError
      | Some h \<Rightarrow>
         bind (write_header h []) (\<lambda>new_data.
           if int (length new_data) \<noteq> cell_header_offset h
           then Inl (ValueError ''Header offset is incorrect, I have no setup for this :)'')
           else if length (world_data self) < length (cell_headers self)
           then Inl IndexError
           else
             let new_data = new_data
                   @ replicate (CELL_DATA_SIZE * length (cell_headers self)) (of_char CHR ''X'');
                 data_blob_offset = length new_data
             in bind (write_cells env h data_blob_offset (world_data self) 0 (cell_headers self)
                        (new_data, []))
                  (\<lambda>(chs, new_data, data_blob).
                    let new_data = new_data @ data_blob;
                        self = self\<lparr>cell_headers := chs\<rparr>
                    in if \<not> validate
                       then Inr \<lparr> returned = True, output_bytes = new_data,
                                  new_cell_headers = chs, warnings = [] \<rparr>
                       else case validate_write env self new_data of
                              (ws, Inl e) \<Rightarrow> Inl e
                            | (ws, Inr b) \<Rightarrow>
                                Inr \<lparr> returned = b, output_bytes = new_data,
                                      new_cell_headers = chs, warnings = ws \<rparr>)))"

section \<open>A concrete tile\<close>

text \<open>
  A codec for the concrete inputs below: the LZ4 block format restricted to blocks that
  are a single run of fewer than 15 literals (one token byte, whose high nibble is the
  number of literals, then the literals). The reader and the writer of \<open>mip\<close> keep the
  payload as it is. The module is run as the program.
\<close>

definition literal_compress :: "bytes \<Rightarrow> error + bytes" where
  "literal_compress raw =
     (if length raw < 15 then Inr (of_nat (16 * length raw) # raw) else Inl LZ4BlockError)"

definition literal_decompress :: "bytes \<Rightarrow> int \<Rightarrow> error + bytes" where
  "literal_decompress src n = (case src of
       [] \<Rightarrow> Inl LZ4BlockError
     | t # lits \<Rightarrow>
         if length lits < 15 \<and> unat t = 16 * length lits \<and> int (length lits) \<le> n
         then Inr lits else Inl LZ4BlockError)"

definition example_env :: "bytes env" where
  "example_env = \<lparr> lz4_decompress = literal_decompress, lz4_compress = literal_compress,
       read_mip = (\<lambda>raw m. Inr raw),
       write_mip = (\<lambda>d m. case d of None \<Rightarrow> Inl TypeError | Some b \<Rightarrow> Inr b),
       file_contents = (\<lambda>p. None), builtins_is_module = True \<rparr>"

text \<open>The same collaborators when \<open>main.py\<close> is imported by another module.\<close>

definition example_env_imported :: "bytes env" where
  "example_env_imported = example_env\<lparr>builtins_is_module := False\<rparr>"

definition example_header :: header where
  "example_header = \<lparr> version = 1, uuid = ''00112233445566778899aabbccddeeff'',
       creator_id = 7, width = 1, height = 1, cell_header_offset = 60,
       cell_header_size = 388, some_val1 = 0, some_val2 = 0, v_type = 0 \<rparr>"

definition example_header_bytes :: bytes where
  "example_header_bytes =
     [0x54, 0x49, 0x4C, 0x45, 1, 0, 0, 0,
      0x00, 0x11, 0x22, 0x33, 0x44, 0x55, 0x66, 0x77,
      0x88, 0x99, 0xaa, 0xbb, 0xcc, 0xdd, 0xee, 0xff,
      7, 0, 0, 0, 0, 0, 0, 0,
      1, 0, 0, 0, 1, 0, 0, 0, 60, 0, 0, 0, 0x84, 1, 0, 0,
      0, 0, 0, 0, 0, 0, 0, 0, 0, 0, 0, 0]"

text \<open>
  One cell. Its first \<open>mip\<close> level is at offset 449 (2 compressed bytes, 1 byte of
  payload) and its \<open>clutter\<close> chunk at offset 451 (3 compressed bytes, 2 bytes of payload);
  every other descriptor is absent. The byte at offset 448, between the cell header and
  the first chunk, belongs to no chunk.
\<close>

definition example_cell_values :: "int list" where
  "example_cell_values =
     [449, 0, 0, 0, 0, 0, 2, 0, 0, 0, 0, 0, 1, 0, 0, 0, 0, 0, 451, 3, 2] @ replicate 76 0"

definition example_file :: bytes where
  "example_file = example_header_bytes @ concat (map (le_bytes 4) example_cell_values)
     @ [0xEE] @ [0x10, 0x41] @ [0x20, 0x42, 0x43]"

definition example_tile :: "bytes TileFile" where
  "example_tile = fst (read_file example_env None (Some example_file))"

section \<open>Descriptors\<close>

text \<open>
  The descriptor of slot \<open>i\<close> of a category, read from the chunk dictionary: an integer
  value is the descriptor of the only slot, a sequence holds one value per slot.
\<close>

definition slot :: "field \<Rightarrow> nat \<Rightarrow> int" where
  "slot f i = (case f of Single v \<Rightarrow> v | Multi xs \<Rightarrow> xs ! i)"

definition arity :: "field \<Rightarrow> nat" where
  "arity f = (case f of Single v \<Rightarrow> 1 | Multi xs \<Rightarrow> length xs)"

record descriptor =
  d_index :: int
  d_compressed_size :: int
  d_uncompressed_size :: int

definition descriptor_of :: "chunk_header \<Rightarrow> nat \<Rightarrow> descriptor" where
  "descriptor_of chd i = \<lparr> d_index = slot (ch_index chd) i,
       d_compressed_size = slot (ch_compressed chd) i,
       d_uncompressed_size = slot (ch_size chd) i \<rparr>"


text \<open>The concrete file cut in the middle of its first chunk.\<close>

definition example_truncated :: bytes where
  "example_truncated = take 450 example_file"

section \<open>The layout of the data blob\<close>

text \<open>
  The bytes a world-data entry adds to the data blob: nothing for a tuple, the compressed
  encoding for a chunk. The blob of a category, of a cell, and the blob that precedes a
  slot in the iteration order of \<open>write_file\<close> (cells, then categories, then slots).
\<close>

definition compressed_chunk :: "'d env \<Rightarrow> category \<Rightarrow> 'd SubCellData \<Rightarrow> error + bytes \<times> bytes" where
  "compressed_chunk env data_type sc =
     bind (encode sc (map_option snd (read_write_functions env data_type))) (\<lambda>raw.
     bind (lz4_compress env raw) (\<lambda>compressed. Inr (raw, compressed)))"

definition chunk_payload :: "'d env \<Rightarrow> category \<Rightarrow> 'd sub_cell \<Rightarrow> bytes" where
  "chunk_payload env data_type s = (case s of
       Placeholder a b c \<Rightarrow> []
     | Chunk sc \<Rightarrow> (case compressed_chunk env data_type sc of
                     Inl e \<Rightarrow> [] | Inr (raw, compressed) \<Rightarrow> compressed))"

definition category_blob :: "'d env \<Rightarrow> 'd cell \<Rightarrow> category \<Rightarrow> bytes" where
  "category_blob env cell data_type = concat (map (chunk_payload env data_type) (cell data_type))"

definition cell_blob :: "'d env \<Rightarrow> 'd cell \<Rightarrow> bytes" where
  "cell_blob env cell = concat (map (category_blob env cell) categories)"

definition blob_in_cell_before :: "'d env \<Rightarrow> 'd cell \<Rightarrow> category \<Rightarrow> nat \<Rightarrow> bytes" where
  "blob_in_cell_before env cell data_type i =
     concat (map (category_blob env cell) (takeWhile (\<lambda>c. c \<noteq> data_type) categories))
     @ concat (map (chunk_payload env data_type) (take i (cell data_type)))"

definition blob_before :: "'d env \<Rightarrow> 'd cell list \<Rightarrow> nat \<Rightarrow> category \<Rightarrow> nat \<Rightarrow> bytes" where
  "blob_before env wd cell_index data_type i =
     concat (map (cell_blob env) (take cell_index wd))
     @ blob_in_cell_before env (wd ! cell_index) data_type i"

text \<open>
  The world data has one entry per descriptor slot of the cell header, as \<open>read_file\<close>
  builds it.
\<close>

definition one_entry_per_slot :: "cell_header \<Rightarrow> 'd cell \<Rightarrow> bool" where
  "one_entry_per_slot ch cell =
     list_all (\<lambda>data_type. length (cell data_type) = arity (ch_index (ch data_type))) categories"

definition slots_match :: "'d TileFile \<Rightarrow> bool" where
  "slots_match t = list_all2 one_entry_per_slot (cell_headers t) (world_data t)"

text \<open>
  The descriptor a slot must hold after \<open>write_file\<close>, given the blob that precedes the
  slot: the old descriptor for a tuple; for a chunk, the position in the new file, the
  length of the compressed bytes and the length of the raw bytes.
\<close>

definition expected_descriptor ::
  "'d env \<Rightarrow> nat \<Rightarrow> bytes \<Rightarrow> category \<Rightarrow> 'd sub_cell \<Rightarrow> descriptor \<Rightarrow> descriptor" where
  "expected_descriptor env data_blob_offset before data_type s old = (case s of
       Placeholder a b c \<Rightarrow> old
     | Chunk sc \<Rightarrow> (case compressed_chunk env data_type sc of
         Inl e \<Rightarrow> old
       | Inr (raw, compressed) \<Rightarrow>
           \<lparr> d_index = int (length before) + int data_blob_offset,
             d_compressed_size = int (length compressed),
             d_uncompressed_size = int (length raw) \<rparr>))"

definition is_multi :: "field \<Rightarrow> bool" where
  "is_multi f = (case f of Single v \<Rightarrow> False | Multi xs \<Rightarrow> True)"

text \<open>The bytes of a cell header, when \<open>create_cell_header\<close> returns them.\<close>

definition cell_header_bytes :: "cell_header \<Rightarrow> bytes" where
  "cell_header_bytes ch = (case create_cell_header ch of Inl e \<Rightarrow> [] | Inr b \<Rightarrow> b)"

text \<open>The first \<open>mip\<close> level of the concrete tile, as \<open>read_file\<close> decodes it.\<close>

definition example_mip_chunk :: "bytes SubCellData" where
  "example_mip_chunk = \<lparr> sc_type = Mip, sc_original_data = [0x41], sc_data = Some [0x41],
       sc_meta_data = \<lparr> m_index = 449, m_compressed = 2, m_size = 1, m_count = None \<rparr> \<rparr>"

section \<open>The layout of a cell header\<close>

text \<open>
  The number of descriptor slots of a category and whether it has counts, as the table of
  the record layout gives them; and the 97 integers of a cell header in the order of the
  record: for each category its counts (if any), its indices, its compressed sizes and
  its sizes.
\<close>

definition slot_count :: "category \<Rightarrow> nat" where
  "slot_count c = (case c of Mip \<Rightarrow> 6 | Assets \<Rightarrow> 4 | Harvestable \<Rightarrow> 4 | Kinematics \<Rightarrow> 4
                   | _ \<Rightarrow> 1)"

definition has_count :: "category \<Rightarrow> bool" where
  "has_count c = (c \<noteq> Mip \<and> c \<noteq> Clutter)"

definition count_slot :: "chunk_header \<Rightarrow> nat \<Rightarrow> int option" where
  "count_slot chd i = (case ch_count chd of None \<Rightarrow> None | Some f \<Rightarrow> Some (slot f i))"

definition group_values :: "chunk_header \<Rightarrow> bool \<Rightarrow> nat \<Rightarrow> int list" where
  "group_values chd with_count n =
     (if with_count then map (\<lambda>i. the (count_slot chd i)) [0..<n] else [])
     @ map (slot (ch_index chd)) [0..<n]
     @ map (slot (ch_compressed chd)) [0..<n]
     @ map (slot (ch_size chd)) [0..<n]"

definition values_of :: "cell_header \<Rightarrow> int list" where
  "values_of ch = concat (map (\<lambda>c. group_values (ch c) (has_count c) (slot_count c)) categories)"

section \<open>The slots in iteration order\<close>

text \<open>
  The slots that \<open>write_file\<close> visits, in the order it visits them: cell by cell,
  category by category in the order of the dictionary, slot by slot. A slot is the cell
  index, the category and the position in the list of the category.
\<close>

definition cell_slots :: "'d cell \<Rightarrow> (category \<times> nat) list" where
  "cell_slots cell =
     concat (map (\<lambda>data_type. map (\<lambda>i. (data_type, i)) [0..<length (cell data_type)])
       categories)"

definition slots_of :: "'d cell list \<Rightarrow> (nat \<times> category \<times> nat) list" where
  "slots_of wd =
     concat (map (\<lambda>cell_index. map (\<lambda>s. (cell_index, s)) (cell_slots (wd ! cell_index)))
       [0..<length wd])"

definition entry :: "'d cell list \<Rightarrow> nat \<times> category \<times> nat \<Rightarrow> 'd sub_cell" where
  "entry wd s = (case s of (cell_index, data_type, i) \<Rightarrow> (wd ! cell_index) data_type ! i)"

definition is_chunk :: "'d sub_cell \<Rightarrow> bool" where
  "is_chunk s = (case s of Placeholder a b c \<Rightarrow> False | Chunk sc \<Rightarrow> True)"

definition written :: "cell_header list \<Rightarrow> nat \<times> category \<times> nat \<Rightarrow> descriptor" where
  "written chs s = (case s of (cell_index, data_type, i) \<Rightarrow>
     descriptor_of ((chs ! cell_index) data_type) i)"

definition payload_at :: "'d env \<Rightarrow> 'd cell list \<Rightarrow> nat \<times> category \<times> nat \<Rightarrow> bytes" where
  "payload_at env wd s = (case s of (cell_index, data_type, i) \<Rightarrow>
     chunk_payload env data_type ((wd ! cell_index) data_type ! i))"

text \<open>
  The shape of the chunk dictionary of a category in a parsed cell header: tuples of as
  many items as the category has slots, or integers for a category with one slot.
\<close>

definition field_shape :: "field \<Rightarrow> nat \<Rightarrow> bool" where
  "field_shape f n = (case f of Single v \<Rightarrow> n = 1 | Multi xs \<Rightarrow> 1 < n \<and> length xs = n)"

definition well_shaped :: "chunk_header \<Rightarrow> category \<Rightarrow> bool" where
  "well_shaped chd c =
     (field_shape (ch_index chd) (slot_count c)
      \<and> field_shape (ch_compressed chd) (slot_count c)
      \<and> field_shape (ch_size chd) (slot_count c)
      \<and> (case ch_count chd of None \<Rightarrow> \<not> has_count c
          | Some f \<Rightarrow> has_count c \<and> field_shape f (slot_count c)))"

section \<open>Conditions on the external codecs\<close>

text \<open>
  What a round trip needs from the collaborators: decompressing what \<open>lz4_compress\<close>
  returned, with the length of the raw bytes as the size, gives the raw bytes back; and
  the reader of \<open>mip\<close> accepts the bytes that the writer of \<open>mip\<close> returned.
\<close>

definition lz4_round_trip :: "'d env \<Rightarrow> bool" where
  "lz4_round_trip env =
     (\<forall>raw c. lz4_compress env raw = Inr c \<longrightarrow> lz4_decompress env c (int (length raw)) = Inr raw)"

definition mip_readable :: "'d env \<Rightarrow> bool" where
  "mip_readable env =
     (\<forall>d m raw m'. write_mip env d m = Inr raw \<longrightarrow> (\<exists>d'. read_mip env raw m' = Inr d'))"

section \<open>A concrete file with a descriptor that points beyond the end\<close>

text \<open>
  The concrete file with one change: the \<open>clutter\<close> descriptor declares 5 compressed
  bytes at offset 451, where the file, of 454 bytes, has 3 bytes left. The slice of the
  chunk is cut at the end of the file, as every slice of \<open>bytes\<close> is, and the file
  parses.
\<close>

definition example_overflowing :: bytes where
  "example_overflowing = example_header_bytes
     @ concat (map (le_bytes 4)
         ([449, 0, 0, 0, 0, 0, 2, 0, 0, 0, 0, 0, 1, 0, 0, 0, 0, 0, 451, 5, 2] @ replicate 76 0))
     @ [0xEE] @ [0x10, 0x41] @ [0x20, 0x42, 0x43]"

section \<open>Parsing, writing and parsing again\<close>

text \<open>
  A file is read, the tile is written unchanged (with no validation), and the bytes
  written are read by a new object. The result is the second object, or the first
  exception raised on the way.
\<close>

definition reparse_of :: "'d env \<Rightarrow> bytes \<Rightarrow> error + 'd TileFile" where
  "reparse_of env data =
     (case read_file env None (Some data) of
        (t1, Some e) \<Rightarrow> Inl e
      | (t1, None) \<Rightarrow>
          bind (write_file env t1 False) (\<lambda>r.
            case read_file env None (Some (output_bytes r)) of
              (t2, Some e) \<Rightarrow> Inl e
            | (t2, None) \<Rightarrow> Inr t2))"

text \<open>The descriptor of a slot in the first parse and in the second one.\<close>

definition parsed_descriptor ::
  "'d env \<Rightarrow> bytes \<Rightarrow> nat \<Rightarrow> category \<Rightarrow> nat \<Rightarrow> error + descriptor" where
  "parsed_descriptor env data cell_index data_type i =
     (case read_file env None (Some data) of
        (t1, Some e) \<Rightarrow> Inl e
      | (t1, None) \<Rightarrow> Inr (descriptor_of ((cell_headers t1 ! cell_index) data_type) i))"

definition reparsed_descriptor ::
  "'d env \<Rightarrow> bytes \<Rightarrow> nat \<Rightarrow> category \<Rightarrow> nat \<Rightarrow> error + descriptor" where
  "reparsed_descriptor env data cell_index data_type i =
     bind (reparse_of env data) (\<lambda>t2.
       Inr (descriptor_of ((cell_headers t2 ! cell_index) data_type) i))"

text \<open>
  The concrete file with one change: the \<open>clutter\<close> descriptor declares 4 bytes of
  payload, where the chunk decompresses to 2; the size given to
  \<open>lz4.block.decompress\<close> is the most it may return.
\<close>

definition example_oversized :: bytes where
  "example_oversized = example_header_bytes
     @ concat (map (le_bytes 4)
         ([449, 0, 0, 0, 0, 0, 2, 0, 0, 0, 0, 0, 1, 0, 0, 0, 0, 0, 451, 3, 4] @ replicate 76 0))
     @ [0xEE] @ [0x10, 0x41] @ [0x20, 0x42, 0x43]"

section \<open>Basic facts\<close>

lemma bind_Inr_iff: "bind m f = Inr y \<longleftrightarrow> (\<exists>x. m = Inr x \<and> f x = Inr y)"
  by (cases m) (simp_all add: bind_def)

lemma bind_Inr [simp]: "bind (Inr x) f = f x"
  by (simp add: bind_def)

lemma bind_Inl [simp]: "bind (Inl e) f = Inl e"
  by (simp add: bind_def)

lemma length_le_bytes [simp]: "length (le_bytes n v) = n"
  by (induction n arbitrary: v) simp_all

lemma le_int_le_bytes: "0 \<le> v \<Longrightarrow> v < 256 ^ n \<Longrightarrow> le_int (le_bytes n v) = v"
proof (induction n arbitrary: v)
  case 0
  then show ?case by simp
next
  case (Suc n)
  have "v div 256 < 256 ^ n"
    using Suc.prems by (simp add: div_less_iff_less_mult mult.commute)
  moreover have "0 \<le> v div 256"
    using Suc.prems by simp
  ultimately have "le_int (le_bytes n (v div 256)) = v div 256"
    by (rule Suc.IH[rotated])
  moreover have "uint (word_of_int v :: byte) = v mod 256"
    by (simp add: uint_word_of_int)
  ultimately show ?case by simp
qed

lemma length_pack_16s [simp]: "length (pack_16s b) = 16"
  by (simp add: pack_16s_def)

lemma length_pack_I: "pack_I v = Inr b \<Longrightarrow> length b = 4"
  by (auto simp: pack_I_def split: if_splits)

lemma length_pack_Q: "pack_Q v = Inr b \<Longrightarrow> length b = 8"
  by (auto simp: pack_Q_def split: if_splits)

lemma length_pack_i: "pack_i v = Inr b \<Longrightarrow> length b = 4"
  by (auto simp: pack_i_def split: if_splits)

lemma header_calcsize_eq: "header_calcsize = 60"
  by (simp add: header_calcsize_def header_format_sizes_def)

lemma length_write_header:
  "write_header h acc = Inr out \<Longrightarrow> length out = length acc + 60"
  unfolding write_header_def bind_Inr_iff
  by (auto dest!: length_pack_I length_pack_Q)

lemma le_bytes_le_int: "le_bytes (length bs) (le_int bs) = bs"
proof (induction bs)
  case Nil
  then show ?case by simp
next
  case (Cons b bs)
  have d: "(uint b + 256 * le_int bs) div 256 = le_int bs"
    using uint_lt2p[of b] uint_ge_0[of b] by simp
  have w: "(word_of_int (uint b + 256 * le_int bs) :: byte) = b"
  proof -
    have "uint (word_of_int (uint b + 256 * le_int bs) :: byte)
            = (uint b + 256 * le_int bs) mod 2 ^ LENGTH(8)"
      by (rule uint_word_of_int)
    also have "\<dots> = uint b"
      using uint_lt2p[of b] uint_ge_0[of b] by simp
    finally show ?thesis by (simp only: word_uint_eq_iff)
  qed
  have "le_bytes (length (b # bs)) (le_int (b # bs))
          = word_of_int (uint b + 256 * le_int bs)
            # le_bytes (length bs) ((uint b + 256 * le_int bs) div 256)"
    by (simp only: length_Cons le_bytes.simps le_int.simps)
  also have "\<dots> = b # bs"
    by (simp only: d w Cons.IH)
  finally show ?case .
qed

lemma sum_list_cell_format: "sum_list cell_format = 97"
  by (simp add: cell_format_def)

lemma length_chunks4: "length (chunks4 buf) = length buf div 4"
  by (induction buf rule: chunks4.induct) simp_all

lemma struct_unpack_i_length:
  "struct_unpack_i fmt buf = Inr us \<Longrightarrow> length us = sum_list fmt \<and> length buf = 4 * sum_list fmt"
  by (auto simp: struct_unpack_i_def length_chunks4 split: if_splits)

lemma parse_header_short: "length data < 60 \<Longrightarrow> parse_header data = Inl StructError"
  by (simp add: parse_header_def header_calcsize_eq)

lemma slice_take: "b \<le> n \<Longrightarrow> slice (take n xs) a b = slice xs a b"
  by (simp add: slice_def drop_take min_def)

lemma parse_header_take: "60 \<le> length data \<Longrightarrow> parse_header (take 60 data) = parse_header data"
  by (simp add: parse_header_def header_calcsize_eq slice_take Let_def)

lemma magic_bytes: "le_bytes 4 MAGIC_KEY = [0x54, 0x49, 0x4C, 0x45]"
  by code_simp

lemma parse_header_bad_magic:
  assumes "60 \<le> length data" "take 4 data \<noteq> [0x54, 0x49, 0x4C, 0x45]"
  shows "parse_header data = Inl (ValueError ''Invalid .tile file: Missing MAGIC_KEY'')"
proof -
  have len: "length (take 4 data) = 4" using assms by simp
  have "le_int (take 4 data) \<noteq> MAGIC_KEY"
  proof
    assume "le_int (take 4 data) = MAGIC_KEY"
    then have "le_bytes (length (take 4 data)) (le_int (take 4 data)) = le_bytes 4 MAGIC_KEY"
      using len by simp
    then show False using assms(2) by (simp only: le_bytes_le_int magic_bytes)
  qed
  then show ?thesis using assms(1)
    by (simp add: parse_header_def header_calcsize_eq slice_def unpack_I_def Let_def)
qed

lemma write_file_header_offset:
  assumes "write_file env self validate = Inr r"
  shows "\<exists>h. header self = Some h \<and> cell_header_offset h = 60"
proof (cases "header self")
  case None
  with assms show ?thesis by (simp add: write_file_def)
next
  case (Some h)
  from assms Some obtain new_data where w: "write_header h [] = Inr new_data"
    and c: "int (length new_data) = cell_header_offset h"
    by (auto simp: write_file_def bind_Inr_iff split: if_splits)
  from length_write_header[OF w] c Some show ?thesis by simp
qed

section \<open>The header codec\<close>

text \<open>
  Claim C5, as the code has it: the header layout is 60 bytes long, not 64.
  \<open>parse_header\<close> raises on an input shorter than 60 bytes and otherwise depends on the
  first 60 bytes only; \<open>write_header\<close> appends exactly 60 bytes; and \<open>write_file\<close> goes
  on only when that length is \<open>cell_header_offset\<close>, which is then 60.
\<close>

theorem header_layout_is_60_bytes:
  "(length data < 60 \<longrightarrow> parse_header data = Inl StructError)
   \<and> (60 \<le> length data \<longrightarrow> parse_header data = parse_header (take 60 data))
   \<and> (write_header h new_data = Inr out \<longrightarrow> length out = length new_data + 60)
   \<and> (write_file env self validate = Inr r
        \<longrightarrow> (\<exists>h'. header self = Some h' \<and> cell_header_offset h' = 60))"
  using parse_header_short parse_header_take length_write_header write_file_header_offset
  by metis

text \<open>
  Claim C6, as the code has it: on every input whose first four bytes are not the magic
  signature, \<open>parse_header\<close> raises: the invalid-magic error when the input has at
  least 60 bytes, the error of \<open>struct\<close> when it is shorter. \<open>read_file\<close> on such an
  input (of any length) raises what \<open>parse_header\<close> raised, with no header stored and no
  cell header parsed: the object is the fresh one, holding the input only. The same holds
  when the bytes come from the file, which \<open>read_file\<close> opens when it is given no bytes
  or empty ones.
\<close>

theorem invalid_magic_aborts:
  assumes "take 4 data \<noteq> [0x54, 0x49, 0x4C, 0x45]"
  shows "(60 \<le> length data \<longrightarrow>
            parse_header data = Inl (ValueError ''Invalid .tile file: Missing MAGIC_KEY''))
         \<and> (length data < 60 \<longrightarrow> parse_header data = Inl StructError)
         \<and> (data \<noteq> [] \<longrightarrow>
              read_file env fp (Some data)
                = ((init fp)\<lparr>original_data := Some data\<rparr>,
                   Some (if 60 \<le> length data
                         then ValueError ''Invalid .tile file: Missing MAGIC_KEY''
                         else StructError))
              \<and> header (fst (read_file env fp (Some data))) = None
              \<and> cell_headers (fst (read_file env fp (Some data))) = []
              \<and> world_data (fst (read_file env fp (Some data))) = [])
         \<and> (\<forall>raw t err. read_file env fp raw = (t, err) \<and> original_data t = Some data
              \<longrightarrow> err = Some (if 60 \<le> length data
                               then ValueError ''Invalid .tile file: Missing MAGIC_KEY''
                               else StructError)
                  \<and> header t = None \<and> cell_headers t = [] \<and> world_data t = [])"
proof -
  let ?e = "if 60 \<le> length data then ValueError ''Invalid .tile file: Missing MAGIC_KEY''
            else StructError"
  have p: "parse_header data = Inl ?e"
    using assms parse_header_bad_magic[of data] parse_header_short[of data] by auto
  have r: "read_file env fp (Some data) = ((init fp)\<lparr>original_data := Some data\<rparr>, Some ?e)"
    if "data \<noteq> []"
    using that by (simp add: read_file_def p Let_def)
  have f: "err = Some ?e \<and> header t = None \<and> cell_headers t = [] \<and> world_data t = []"
    if "read_file env fp raw = (t, err)" and "original_data t = Some data" for raw t err
  proof -
    let ?load = "if raw = None \<or> raw = Some [] then open_read env fp else Inr (the raw)"
    show ?thesis
    proof (cases ?load)
      case (Inl e)
      with that show ?thesis by (auto simp: read_file_def Let_def init_def)
    next
      case (Inr d)
      show ?thesis
      proof (cases "parse_header d")
        case (Inl e)
        with Inr that have "d = data" by (auto simp: read_file_def Let_def init_def)
        with Inl Inr that p show ?thesis by (auto simp: read_file_def Let_def init_def)
      next
        case h: (Inr h)
        with Inr that have "d = data"
          by (auto simp: read_file_def Let_def init_def split: prod.splits option.splits)
        with h p show ?thesis by simp
      qed
    qed
  qed
  show ?thesis
    using p r f by (auto simp: init_def)
qed

theorem invalid_magic_aborts_witness:
  "parse_header (replicate 60 0) = Inl (ValueError ''Invalid .tile file: Missing MAGIC_KEY'')
   \<and> read_file example_env None (Some (replicate 60 0))
       = ((init None)\<lparr>original_data := Some (replicate 60 0)\<rparr>,
          Some (ValueError ''Invalid .tile file: Missing MAGIC_KEY''))
   \<and> cell_headers (fst (read_file example_env None (Some (replicate 60 0)))) = []
   \<and> parse_header [0x41, 0x42, 0x43, 0x44] = Inl StructError
   \<and> read_file example_env None (Some [0x41, 0x42, 0x43, 0x44])
       = ((init None)\<lparr>original_data := Some [0x41, 0x42, 0x43, 0x44]\<rparr>, Some StructError)
   \<and> header (fst (read_file example_env None (Some [0x41, 0x42, 0x43, 0x44]))) = None
   \<and> cell_headers (fst (read_file example_env None (Some [0x41, 0x42, 0x43, 0x44]))) = []"
proof -
  have a: "take 4 (replicate 60 (0 :: byte)) \<noteq> [0x54, 0x49, 0x4C, 0x45]"
    by code_simp
  have b: "take 4 [0x41, 0x42, 0x43, 0x44 :: byte] \<noteq> [0x54, 0x49, 0x4C, 0x45]"
    by simp
  show ?thesis
    using invalid_magic_aborts[OF a, of example_env None]
      invalid_magic_aborts[OF b, of example_env None]
    by (simp add: init_def)
qed

text \<open>
  Claim C6 as stated fails on a short input: four bytes that are not the magic signature
  make \<open>parse_header\<close> raise the error of \<open>struct\<close>, not the invalid-magic error.
\<close>

theorem invalid_magic_short_input_counterexample:
  "take 4 [0x41, 0x42, 0x43, 0x44 :: byte] \<noteq> [0x54, 0x49, 0x4C, 0x45]
   \<and> parse_header [0x41, 0x42, 0x43, 0x44] = Inl StructError
   \<and> parse_header [0x41, 0x42, 0x43, 0x44]
       \<noteq> Inl (ValueError ''Invalid .tile file: Missing MAGIC_KEY'')"
  by (simp add: parse_header_def header_calcsize_eq)

section \<open>The cell-header codec\<close>

text \<open>
  Claim C10: an input of \<open>parse_cell_header\<close> that is not exactly 388 bytes long makes
  the unpacking itself raise; when the unpacking succeeds it yields exactly 97 integers;
  so the size-mismatch error is raised for no input.
\<close>

theorem parse_cell_header_mismatch_unreachable:
  "(length cell_data \<noteq> 388 \<longrightarrow> parse_cell_header cell_data = Inl StructError)
   \<and> (\<forall>unpacked. struct_unpack_i cell_format cell_data = Inr unpacked
        \<longrightarrow> length unpacked = CELL_HEADER_SIZE)
   \<and> parse_cell_header cell_data
        \<noteq> Inl (ValueError ''Invalid .tile file: Cell Header size mismatch'')"
  by (auto simp: parse_cell_header_def struct_unpack_i_def sum_list_cell_format
      CELL_HEADER_SIZE_def length_chunks4)

theorem parse_cell_header_mismatch_unreachable_witness:
  "parse_cell_header [] = Inl StructError
   \<and> length (projr (struct_unpack_i cell_format (replicate 388 0))) = CELL_HEADER_SIZE
   \<and> parse_cell_header (replicate 388 0)
        \<noteq> Inl (ValueError ''Invalid .tile file: Cell Header size mismatch'')"
proof -
  have u: "struct_unpack_i cell_format (replicate 388 0)
             = Inr (projr (struct_unpack_i cell_format (replicate 388 0)))"
    by (simp add: struct_unpack_i_def sum_list_cell_format)
  show ?thesis
    using parse_cell_header_mismatch_unreachable[of "[]"]
      parse_cell_header_mismatch_unreachable[of "replicate 388 0"] u
    by simp
qed

section \<open>The validator\<close>


lemma sequence_map_Inr:
  "sequence (map f xs) = Inr ys \<Longrightarrow>
     length ys = length xs \<and> (\<forall>k < length xs. f (xs ! k) = Inr (ys ! k))"
proof (induction xs arbitrary: ys)
  case Nil
  then show ?case by simp
next
  case (Cons x xs)
  from Cons.prems obtain y ys' where y: "f x = Inr y" and s: "sequence (map f xs) = Inr ys'"
    and e: "ys = y # ys'"
    by (auto simp: bind_Inr_iff)
  from Cons.IH[OF s] y e show ?case
    by (auto simp: nth_Cons split: nat.splits)
qed



lemma set_categories: "set categories = UNIV"
proof -
  have "c \<in> set categories" for c
    by (cases c) (simp_all add: categories_def)
  then show ?thesis by auto
qed





section \<open>The writer\<close>

lemma set_item_Inr:
  "set_item f i v = Inr g \<Longrightarrow> \<exists>xs. f = Multi xs \<and> i < length xs \<and> g = Multi (xs[i := v])"
  by (auto simp: set_item_def split: field.splits if_splits)

lemma write_sub_cell_Placeholder [simp]:
  "write_sub_cell env off dt i (Placeholder a b c) st = Inr st"
  by (cases st) (simp add: write_sub_cell_def)

lemma write_sub_cell_Chunk:
  assumes "write_sub_cell env off dt i (Chunk sc) (ch, blob) = Inr (ch', blob')"
  shows "\<exists>raw comp. compressed_chunk env dt sc = Inr (raw, comp)
           \<and> blob' = blob @ comp
           \<and> descriptor_of (ch' dt) i
               = \<lparr> d_index = int (length blob) + int off, d_compressed_size = int (length comp),
                   d_uncompressed_size = int (length raw) \<rparr>
           \<and> (\<forall>dt'. dt' \<noteq> dt \<longrightarrow> ch' dt' = ch dt')
           \<and> ch_count (ch' dt) = ch_count (ch dt)
           \<and> arity (ch_index (ch' dt)) = arity (ch_index (ch dt))
           \<and> is_multi (ch_index (ch' dt)) = is_multi (ch_index (ch dt))
           \<and> (\<forall>j. j \<noteq> i \<longrightarrow> is_multi (ch_index (ch dt))
                 \<longrightarrow> descriptor_of (ch' dt) j = descriptor_of (ch dt) j)"
proof -
  from assms obtain raw comp chd' where
    e: "encode sc (map_option snd (read_write_functions env dt)) = Inr raw"
    and c: "lz4_compress env raw = Inr comp"
    and u: "(if (case ch_index (ch dt) of Single a \<Rightarrow> False | Multi xs \<Rightarrow> True)
             then bind (set_item (ch_index (ch dt)) i (int (length blob) + int off)) (\<lambda>i'.
                  bind (set_item (ch_compressed (ch dt)) i (int (length comp))) (\<lambda>c'.
                  bind (set_item (ch_size (ch dt)) i (int (length raw))) (\<lambda>s'.
                    Inr ((ch dt)\<lparr>ch_index := i', ch_compressed := c', ch_size := s'\<rparr>))))
             else Inr ((ch dt)\<lparr>ch_index := Single (int (length blob) + int off),
                               ch_compressed := Single (int (length comp)),
                               ch_size := Single (int (length raw))\<rparr>)) = Inr chd'"
    and r: "ch' = ch(dt := chd')" "blob' = blob @ comp"
    by (auto simp: write_sub_cell_def Let_def bind_Inr_iff)
  have cc: "compressed_chunk env dt sc = Inr (raw, comp)"
    by (simp add: compressed_chunk_def e c)
  show ?thesis
  proof (cases "ch_index (ch dt)")
    case (Single v)
    with u have "chd' = (ch dt)\<lparr>ch_index := Single (int (length blob) + int off),
                               ch_compressed := Single (int (length comp)),
                               ch_size := Single (int (length raw))\<rparr>"
      by simp
    with r cc Single show ?thesis
      by (auto simp: descriptor_of_def slot_def arity_def is_multi_def)
  next
    case (Multi xs)
    with u obtain i' c' s' where
      "set_item (ch_index (ch dt)) i (int (length blob) + int off) = Inr i'"
      "set_item (ch_compressed (ch dt)) i (int (length comp)) = Inr c'"
      "set_item (ch_size (ch dt)) i (int (length raw)) = Inr s'"
      and chd': "chd' = (ch dt)\<lparr>ch_index := i', ch_compressed := c', ch_size := s'\<rparr>"
      by (auto simp: bind_Inr_iff)
    then obtain ys zs where
      "i < length xs" "i' = Multi (xs[i := int (length blob) + int off])"
      "ch_compressed (ch dt) = Multi ys" "i < length ys" "c' = Multi (ys[i := int (length comp)])"
      "ch_size (ch dt) = Multi zs" "i < length zs" "s' = Multi (zs[i := int (length raw)])"
      using Multi by (auto dest!: set_item_Inr)
    with r cc Multi chd' show ?thesis
      by (auto simp: descriptor_of_def slot_def arity_def is_multi_def)
  qed
qed


lemma write_sub_cell_step:
  assumes "write_sub_cell env off dt i s (ch, blob) = Inr (ch', blob')"
  shows "blob' = blob @ chunk_payload env dt s"
    and "descriptor_of (ch' dt) i
           = expected_descriptor env off blob dt s (descriptor_of (ch dt) i)"
    and "dt' \<noteq> dt \<Longrightarrow> ch' dt' = ch dt'"
    and "ch_count (ch' dt) = ch_count (ch dt)"
    and "arity (ch_index (ch' dt)) = arity (ch_index (ch dt))"
    and "is_multi (ch_index (ch' dt)) = is_multi (ch_index (ch dt))"
    and "j \<noteq> i \<Longrightarrow> is_multi (ch_index (ch dt))
           \<Longrightarrow> descriptor_of (ch' dt) j = descriptor_of (ch dt) j"
proof -
  have "blob' = blob @ chunk_payload env dt s
    \<and> descriptor_of (ch' dt) i
           = expected_descriptor env off blob dt s (descriptor_of (ch dt) i)
    \<and> (dt' \<noteq> dt \<longrightarrow> ch' dt' = ch dt')
    \<and> ch_count (ch' dt) = ch_count (ch dt)
    \<and> arity (ch_index (ch' dt)) = arity (ch_index (ch dt))
    \<and> is_multi (ch_index (ch' dt)) = is_multi (ch_index (ch dt))
    \<and> (j \<noteq> i \<longrightarrow> is_multi (ch_index (ch dt))
           \<longrightarrow> descriptor_of (ch' dt) j = descriptor_of (ch dt) j)"
  proof (cases s)
    case (Placeholder a b c)
    with assms show ?thesis
      by (simp add: chunk_payload_def expected_descriptor_def)
  next
    case (Chunk sc)
    from write_sub_cell_Chunk[OF assms[unfolded Chunk]] Chunk show ?thesis
      by (auto simp: chunk_payload_def expected_descriptor_def)
  qed
  then show "blob' = blob @ chunk_payload env dt s"
    and "descriptor_of (ch' dt) i
           = expected_descriptor env off blob dt s (descriptor_of (ch dt) i)"
    and "dt' \<noteq> dt \<Longrightarrow> ch' dt' = ch dt'"
    and "ch_count (ch' dt) = ch_count (ch dt)"
    and "arity (ch_index (ch' dt)) = arity (ch_index (ch dt))"
    and "is_multi (ch_index (ch' dt)) = is_multi (ch_index (ch dt))"
    and "j \<noteq> i \<Longrightarrow> is_multi (ch_index (ch dt))
           \<Longrightarrow> descriptor_of (ch' dt) j = descriptor_of (ch dt) j"
    by simp_all
qed

lemma write_sub_cells_multi:
  assumes "write_sub_cells env off dt i0 ss (ch, blob) = Inr (ch', blob')"
  shows "blob' = blob @ concat (map (chunk_payload env dt) ss)
    \<and> (\<forall>dt'. dt' \<noteq> dt \<longrightarrow> ch' dt' = ch dt')
    \<and> ch_count (ch' dt) = ch_count (ch dt)
    \<and> arity (ch_index (ch' dt)) = arity (ch_index (ch dt))
    \<and> is_multi (ch_index (ch' dt)) = is_multi (ch_index (ch dt))
    \<and> (is_multi (ch_index (ch dt)) \<longrightarrow>
         (\<forall>j. j < i0 \<or> i0 + length ss \<le> j
              \<longrightarrow> descriptor_of (ch' dt) j = descriptor_of (ch dt) j)
         \<and> (\<forall>k < length ss. descriptor_of (ch' dt) (i0 + k)
                = expected_descriptor env off
                    (blob @ concat (map (chunk_payload env dt) (take k ss))) dt (ss ! k)
                    (descriptor_of (ch dt) (i0 + k))))"
  using assms
proof (induction ss arbitrary: i0 ch blob)
  case Nil
  then show ?case by simp
next
  case (Cons s ss)
  from Cons.prems obtain ch1 blob1 where
    st: "write_sub_cell env off dt i0 s (ch, blob) = Inr (ch1, blob1)"
    and rest: "write_sub_cells env off dt (Suc i0) ss (ch1, blob1) = Inr (ch', blob')"
    by (auto simp: bind_Inr_iff)
  note s = write_sub_cell_step[OF st]
  note ih = Cons.IH[OF rest]
  have b: "blob' = blob @ concat (map (chunk_payload env dt) (s # ss))"
    using ih s(1) by simp
  have o: "\<forall>dt'. dt' \<noteq> dt \<longrightarrow> ch' dt' = ch dt'"
    using ih s(3) by simp
  have c: "ch_count (ch' dt) = ch_count (ch dt)"
    "arity (ch_index (ch' dt)) = arity (ch_index (ch dt))"
    "is_multi (ch_index (ch' dt)) = is_multi (ch_index (ch dt))"
    using ih s(4,5,6) by simp_all
  have m: "(\<forall>j. j < i0 \<or> i0 + length (s # ss) \<le> j
              \<longrightarrow> descriptor_of (ch' dt) j = descriptor_of (ch dt) j)
         \<and> (\<forall>k < length (s # ss). descriptor_of (ch' dt) (i0 + k)
                = expected_descriptor env off
                    (blob @ concat (map (chunk_payload env dt) (take k (s # ss)))) dt
                    ((s # ss) ! k) (descriptor_of (ch dt) (i0 + k)))"
    if mu: "is_multi (ch_index (ch dt))"
  proof -
    from mu s(6) have mu1: "is_multi (ch_index (ch1 dt))" by simp
    from ih mu1 have out: "\<And>j. j < Suc i0 \<or> Suc i0 + length ss \<le> j
              \<Longrightarrow> descriptor_of (ch' dt) j = descriptor_of (ch1 dt) j"
      and ins: "\<And>k. k < length ss \<Longrightarrow> descriptor_of (ch' dt) (Suc i0 + k)
                = expected_descriptor env off
                    (blob1 @ concat (map (chunk_payload env dt) (take k ss))) dt (ss ! k)
                    (descriptor_of (ch1 dt) (Suc i0 + k))"
      by auto
    have 1: "descriptor_of (ch' dt) j = descriptor_of (ch dt) j"
      if "j < i0 \<or> i0 + length (s # ss) \<le> j" for j
    proof -
      from that have "j \<noteq> i0" "j < Suc i0 \<or> Suc i0 + length ss \<le> j" by auto
      with out[of j] s(7)[OF _ mu, of j] show ?thesis by simp
    qed
    have 2: "descriptor_of (ch' dt) (i0 + k)
                = expected_descriptor env off
                    (blob @ concat (map (chunk_payload env dt) (take k (s # ss)))) dt
                    ((s # ss) ! k) (descriptor_of (ch dt) (i0 + k))"
      if "k < length (s # ss)" for k
    proof (cases k)
      case 0
      with out[of i0] s(2) show ?thesis by simp
    next
      case (Suc k')
      with that have k': "k' < length ss" by simp
      have "descriptor_of (ch1 dt) (Suc i0 + k') = descriptor_of (ch dt) (Suc i0 + k')"
        using s(7)[OF _ mu, of "Suc i0 + k'"] by simp
      with ins[OF k'] s(1) Suc show ?thesis by simp
    qed
    from 1 2 show ?thesis by blast
  qed
  from b o c m show ?case by blast
qed

lemma write_sub_cells_slots:
  assumes w: "write_sub_cells env off dt 0 ss (ch, blob) = Inr (ch', blob')"
    and l: "length ss = arity (ch_index (ch dt))"
  shows "\<forall>k < length ss. descriptor_of (ch' dt) k
           = expected_descriptor env off
               (blob @ concat (map (chunk_payload env dt) (take k ss))) dt (ss ! k)
               (descriptor_of (ch dt) k)"
proof (cases "is_multi (ch_index (ch dt))")
  case True
  with write_sub_cells_multi[OF w] show ?thesis by simp
next
  case False
  then have "arity (ch_index (ch dt)) = 1"
    by (auto simp: is_multi_def arity_def split: field.splits)
  with l obtain s where ss: "ss = [s]"
    by (cases ss) auto
  from w ss have "write_sub_cell env off dt 0 s (ch, blob) = Inr (ch', blob')"
    by (simp add: bind_Inr_iff)
  from write_sub_cell_step(2)[OF this] ss show ?thesis by simp
qed

lemma write_categories_layout:
  assumes "write_categories env off cell cats (ch, blob) = Inr (ch', blob')"
    and "distinct cats"
    and "\<forall>dt \<in> set cats. length (cell dt) = arity (ch_index (ch dt))"
  shows "blob' = blob @ concat (map (category_blob env cell) cats)
    \<and> (\<forall>dt. dt \<notin> set cats \<longrightarrow> ch' dt = ch dt)
    \<and> (\<forall>dt. ch_count (ch' dt) = ch_count (ch dt)
            \<and> arity (ch_index (ch' dt)) = arity (ch_index (ch dt))
            \<and> is_multi (ch_index (ch' dt)) = is_multi (ch_index (ch dt)))
    \<and> (\<forall>dt \<in> set cats. \<forall>k < length (cell dt). descriptor_of (ch' dt) k
          = expected_descriptor env off
              (blob @ concat (map (category_blob env cell) (takeWhile (\<lambda>c. c \<noteq> dt) cats))
                 @ concat (map (chunk_payload env dt) (take k (cell dt))))
              dt (cell dt ! k) (descriptor_of (ch dt) k))"
  using assms
proof (induction cats arbitrary: ch blob)
  case Nil
  then show ?case by simp
next
  case (Cons c cats)
  from Cons.prems(1) obtain ch1 blob1 where
    st: "write_sub_cells env off c 0 (cell c) (ch, blob) = Inr (ch1, blob1)"
    and rest: "write_categories env off cell cats (ch1, blob1) = Inr (ch', blob')"
    by (auto simp: bind_Inr_iff)
  note m = write_sub_cells_multi[OF st]
  from Cons.prems(3) have lc: "length (cell c) = arity (ch_index (ch c))" by simp
  note sl = write_sub_cells_slots[OF st lc]
  have same: "ch1 dt = ch dt" if "dt \<noteq> c" for dt
    using m that by simp
  have d: "distinct cats" and cn: "c \<notin> set cats" using Cons.prems(2) by simp_all
  have l1: "\<forall>dt \<in> set cats. length (cell dt) = arity (ch_index (ch1 dt))"
  proof
    fix dt assume dt: "dt \<in> set cats"
    with cn have "dt \<noteq> c" by auto
    from same[OF this] Cons.prems(3) dt show "length (cell dt) = arity (ch_index (ch1 dt))"
      by simp
  qed
  note ih = Cons.IH[OF rest d l1]
  have b1: "blob1 = blob @ category_blob env cell c"
    using m by (simp add: category_blob_def)
  have b: "blob' = blob @ concat (map (category_blob env cell) (c # cats))"
    using ih b1 by simp
  have o: "\<forall>dt. dt \<notin> set (c # cats) \<longrightarrow> ch' dt = ch dt"
    using ih same by auto
  have f: "\<forall>dt. ch_count (ch' dt) = ch_count (ch dt)
            \<and> arity (ch_index (ch' dt)) = arity (ch_index (ch dt))
            \<and> is_multi (ch_index (ch' dt)) = is_multi (ch_index (ch dt))"
  proof
    fix dt
    show "ch_count (ch' dt) = ch_count (ch dt)
            \<and> arity (ch_index (ch' dt)) = arity (ch_index (ch dt))
            \<and> is_multi (ch_index (ch' dt)) = is_multi (ch_index (ch dt))"
    proof (cases "dt = c")
      case True
      with ih m show ?thesis by simp
    next
      case False
      with ih same[OF False] show ?thesis by simp
    qed
  qed
  have s: "descriptor_of (ch' dt) k
          = expected_descriptor env off
              (blob @ concat (map (category_blob env cell) (takeWhile (\<lambda>c. c \<noteq> dt) (c # cats)))
                 @ concat (map (chunk_payload env dt) (take k (cell dt))))
              dt (cell dt ! k) (descriptor_of (ch dt) k)"
    if dt: "dt \<in> set (c # cats)" and k: "k < length (cell dt)" for dt k
  proof (cases "dt = c")
    case True
    from ih cn have "ch' c = ch1 c" by simp
    with sl k True show ?thesis by simp
  next
    case False
    with dt have "dt \<in> set cats" by simp
    with ih k have "descriptor_of (ch' dt) k
          = expected_descriptor env off
              (blob1 @ concat (map (category_blob env cell) (takeWhile (\<lambda>c. c \<noteq> dt) cats))
                 @ concat (map (chunk_payload env dt) (take k (cell dt))))
              dt (cell dt ! k) (descriptor_of (ch1 dt) k)"
      by simp
    then show ?thesis using b1 False same[OF False] by simp
  qed
  from b o f s show ?case by blast
qed

lemma distinct_categories: "distinct categories"
  by (simp add: categories_def)

lemma one_entry_per_slot_iff:
  "one_entry_per_slot ch cell \<longleftrightarrow> (\<forall>dt. length (cell dt) = arity (ch_index (ch dt)))"
  by (simp add: one_entry_per_slot_def list_all_iff set_categories)

lemma write_cell_layout:
  assumes w: "write_cell env h off ci ch cell (nd, blob) = Inr (ch', nd', blob')"
    and o: "one_entry_per_slot ch cell"
    and ho: "cell_header_offset h = int hoff"
  shows "blob' = blob @ cell_blob env cell"
    and "\<forall>dt k. k < length (cell dt) \<longrightarrow> descriptor_of (ch' dt) k
          = expected_descriptor env off (blob @ blob_in_cell_before env cell dt k)
              dt (cell dt ! k) (descriptor_of (ch dt) k)"
    and "\<forall>dt. ch_count (ch' dt) = ch_count (ch dt)
            \<and> arity (ch_index (ch' dt)) = arity (ch_index (ch dt))
            \<and> is_multi (ch_index (ch' dt)) = is_multi (ch_index (ch dt))"
    and "create_cell_header ch' = Inr (cell_header_bytes ch')"
    and "length (cell_header_bytes ch') = 388"
    and "hoff + 388 * ci + 388 \<le> length nd"
    and "nd' = take (hoff + 388 * ci) nd @ cell_header_bytes ch' @ drop (hoff + 388 * ci + 388) nd"
proof -
  from w obtain hd where
    c: "write_categories env off cell categories (ch, blob) = Inr (ch', blob')"
    and hd: "create_cell_header ch' = Inr hd"
    and len: "length hd = CELL_DATA_SIZE"
    and bnd: "\<not> cell_header_offset h + int (CELL_DATA_SIZE * ci) + int CELL_DATA_SIZE
               > int (length nd)"
    and nd': "nd' = take (nat (cell_header_offset h + int (CELL_DATA_SIZE * ci))) nd @ hd
               @ drop (nat (cell_header_offset h + int (CELL_DATA_SIZE * ci) + int CELL_DATA_SIZE)) nd"
    by (auto simp: write_cell_def bind_Inr_iff Let_def split: if_splits prod.splits)
  from o have l: "\<forall>dt \<in> set categories. length (cell dt) = arity (ch_index (ch dt))"
    by (simp add: one_entry_per_slot_iff)
  note lay = write_categories_layout[OF c distinct_categories l]
  show "blob' = blob @ cell_blob env cell"
    using lay by (simp add: cell_blob_def)
  show "\<forall>dt k. k < length (cell dt) \<longrightarrow> descriptor_of (ch' dt) k
          = expected_descriptor env off (blob @ blob_in_cell_before env cell dt k)
              dt (cell dt ! k) (descriptor_of (ch dt) k)"
    using lay by (simp add: blob_in_cell_before_def set_categories)
  show "\<forall>dt. ch_count (ch' dt) = ch_count (ch dt)
            \<and> arity (ch_index (ch' dt)) = arity (ch_index (ch dt))
            \<and> is_multi (ch_index (ch' dt)) = is_multi (ch_index (ch dt))"
    using lay by blast
  show hb: "create_cell_header ch' = Inr (cell_header_bytes ch')"
    using hd by (simp add: cell_header_bytes_def)
  show "length (cell_header_bytes ch') = 388"
    using hd len by (simp add: cell_header_bytes_def CELL_DATA_SIZE_def)
  show "hoff + 388 * ci + 388 \<le> length nd"
    using bnd ho by (simp add: CELL_DATA_SIZE_def)
  have "nat (cell_header_offset h + int (CELL_DATA_SIZE * ci)) = hoff + 388 * ci"
    "nat (cell_header_offset h + int (CELL_DATA_SIZE * ci) + int CELL_DATA_SIZE)
       = hoff + 388 * ci + 388"
    using ho by (simp_all add: CELL_DATA_SIZE_def nat_add_distrib nat_mult_distrib)
  with nd' hd show "nd' = take (hoff + 388 * ci) nd @ cell_header_bytes ch'
                      @ drop (hoff + 388 * ci + 388) nd"
    by (simp add: cell_header_bytes_def)
qed

lemma write_cells_layout:
  assumes "write_cells env h off wd ci chs (nd, blob) = Inr (chs', nd', blob')"
    and "cell_header_offset h = int hoff"
    and "\<forall>j < length chs. one_entry_per_slot (chs ! j) (wd ! (ci + j))"
    and "ci + length chs \<le> length wd"
    and "nd = pre @ mid @ post"
    and "length pre = hoff + 388 * ci"
    and "length mid = 388 * length chs"
  shows "length chs' = length chs
    \<and> blob' = blob @ concat (map (cell_blob env) (take (length chs) (drop ci wd)))
    \<and> nd' = pre @ concat (map cell_header_bytes chs') @ post
    \<and> (\<forall>j < length chs.
          create_cell_header (chs' ! j) = Inr (cell_header_bytes (chs' ! j))
          \<and> length (cell_header_bytes (chs' ! j)) = 388
          \<and> (\<forall>dt. ch_count ((chs' ! j) dt) = ch_count ((chs ! j) dt)
                \<and> arity (ch_index ((chs' ! j) dt)) = arity (ch_index ((chs ! j) dt))
                \<and> is_multi (ch_index ((chs' ! j) dt)) = is_multi (ch_index ((chs ! j) dt)))
          \<and> (\<forall>dt k. k < length ((wd ! (ci + j)) dt) \<longrightarrow>
                descriptor_of ((chs' ! j) dt) k
                  = expected_descriptor env off
                      (blob @ concat (map (cell_blob env) (take j (drop ci wd)))
                         @ blob_in_cell_before env (wd ! (ci + j)) dt k)
                      dt ((wd ! (ci + j)) dt ! k) (descriptor_of ((chs ! j) dt) k)))"
  using assms
proof (induction chs arbitrary: ci nd blob pre mid chs')
  case Nil
  then show ?case by simp
next
  case (Cons ch chs)
  from Cons.prems(1) obtain ch1 nd1 blob1 rest' where
    st: "write_cell env h off ci ch (wd ! ci) (nd, blob) = Inr (ch1, nd1, blob1)"
    and rest: "write_cells env h off wd (Suc ci) chs (nd1, blob1) = Inr (rest', nd', blob')"
    and chs': "chs' = ch1 # rest'"
    by (auto simp: bind_Inr_iff split: prod.splits)
  from Cons.prems(3) have o: "one_entry_per_slot ch (wd ! ci)"
    by (metis length_greater_0_conv list.distinct(1) nth_Cons_0 add.right_neutral)
  note c = write_cell_layout[OF st o Cons.prems(2)]
  have ciw: "ci < length wd" using Cons.prems(4) by simp
  define mid' where "mid' = drop 388 mid"
  have nd1: "nd1 = (pre @ cell_header_bytes ch1) @ mid' @ post"
    using c(7) c(5) Cons.prems(5,6,7) by (simp add: mid'_def)
  have lp: "length (pre @ cell_header_bytes ch1) = hoff + 388 * Suc ci"
    using c(5) Cons.prems(6) by simp
  have lm: "length mid' = 388 * length chs"
    using Cons.prems(7) by (simp add: mid'_def)
  have os: "\<forall>j < length chs. one_entry_per_slot (chs ! j) (wd ! (Suc ci + j))"
    using Cons.prems(3) by auto
  have le: "Suc ci + length chs \<le> length wd" using Cons.prems(4) by simp
  note ih = Cons.IH[OF rest Cons.prems(2) os le nd1 lp lm]
  have dr: "drop ci wd = wd ! ci # drop (Suc ci) wd"
    using ciw by (simp add: Cons_nth_drop_Suc)
  have 1: "length chs' = length (ch # chs)" using ih chs' by simp
  have 2: "blob' = blob @ concat (map (cell_blob env) (take (length (ch # chs)) (drop ci wd)))"
    using ih c(1) dr by simp
  have 3: "nd' = pre @ concat (map cell_header_bytes chs') @ post"
    using ih chs' by simp
  have 4: "create_cell_header (chs' ! j) = Inr (cell_header_bytes (chs' ! j))
          \<and> length (cell_header_bytes (chs' ! j)) = 388
          \<and> (\<forall>dt. ch_count ((chs' ! j) dt) = ch_count (((ch # chs) ! j) dt)
                \<and> arity (ch_index ((chs' ! j) dt)) = arity (ch_index (((ch # chs) ! j) dt))
                \<and> is_multi (ch_index ((chs' ! j) dt))
                    = is_multi (ch_index (((ch # chs) ! j) dt)))
          \<and> (\<forall>dt k. k < length ((wd ! (ci + j)) dt) \<longrightarrow>
                descriptor_of ((chs' ! j) dt) k
                  = expected_descriptor env off
                      (blob @ concat (map (cell_blob env) (take j (drop ci wd)))
                         @ blob_in_cell_before env (wd ! (ci + j)) dt k)
                      dt ((wd ! (ci + j)) dt ! k) (descriptor_of (((ch # chs) ! j) dt) k))"
    if j: "j < length (ch # chs)" for j
  proof (cases j)
    case 0
    with c chs' show ?thesis by simp
  next
    case (Suc j')
    with j have j': "j' < length chs" by simp
    from ih j' have
      "create_cell_header (rest' ! j') = Inr (cell_header_bytes (rest' ! j'))
          \<and> length (cell_header_bytes (rest' ! j')) = 388
          \<and> (\<forall>dt. ch_count ((rest' ! j') dt) = ch_count ((chs ! j') dt)
                \<and> arity (ch_index ((rest' ! j') dt)) = arity (ch_index ((chs ! j') dt))
                \<and> is_multi (ch_index ((rest' ! j') dt)) = is_multi (ch_index ((chs ! j') dt)))
          \<and> (\<forall>dt k. k < length ((wd ! (Suc ci + j')) dt) \<longrightarrow>
                descriptor_of ((rest' ! j') dt) k
                  = expected_descriptor env off
                      (blob1 @ concat (map (cell_blob env) (take j' (drop (Suc ci) wd)))
                         @ blob_in_cell_before env (wd ! (Suc ci + j')) dt k)
                      dt ((wd ! (Suc ci + j')) dt ! k) (descriptor_of ((chs ! j') dt) k))"
      by blast
    then show ?thesis
      using Suc chs' c(1) dr by simp
  qed
  from 1 2 3 4 show ?case by blast
qed

lemma write_sub_cells_chunks_ok:
  assumes "write_sub_cells env off dt i0 ss st = Inr st'"
  shows "\<forall>sc. Chunk sc \<in> set ss \<longrightarrow> (\<exists>raw comp. compressed_chunk env dt sc = Inr (raw, comp))"
  using assms
proof (induction ss arbitrary: i0 st)
  case Nil
  then show ?case by simp
next
  case (Cons s ss)
  from Cons.prems obtain st1 where
    st: "write_sub_cell env off dt i0 s st = Inr st1"
    and rest: "write_sub_cells env off dt (Suc i0) ss st1 = Inr st'"
    by (auto simp: bind_Inr_iff)
  have "\<exists>raw comp. compressed_chunk env dt sc = Inr (raw, comp)" if "s = Chunk sc" for sc
  proof -
    obtain ch blob where "st = (ch, blob)" by (cases st)
    moreover obtain ch1 blob1 where "st1 = (ch1, blob1)" by (cases st1)
    ultimately show ?thesis using write_sub_cell_Chunk[of env off dt i0 sc ch blob ch1 blob1] st that
      by auto
  qed
  with Cons.IH[OF rest] show ?case by auto
qed

lemma write_categories_chunks_ok:
  assumes "write_categories env off cell cats st = Inr st'"
  shows "\<forall>dt \<in> set cats. \<forall>sc. Chunk sc \<in> set (cell dt)
           \<longrightarrow> (\<exists>raw comp. compressed_chunk env dt sc = Inr (raw, comp))"
  using assms
proof (induction cats arbitrary: st)
  case Nil
  then show ?case by simp
next
  case (Cons c cats)
  from Cons.prems obtain st1 where
    st: "write_sub_cells env off c 0 (cell c) st = Inr st1"
    and rest: "write_categories env off cell cats st1 = Inr st'"
    by (auto simp: bind_Inr_iff)
  from write_sub_cells_chunks_ok[OF st] Cons.IH[OF rest] show ?case by auto
qed

lemma write_cells_chunks_ok:
  assumes "write_cells env h off wd ci chs st = Inr res"
  shows "\<forall>j < length chs. \<forall>dt sc. Chunk sc \<in> set ((wd ! (ci + j)) dt)
           \<longrightarrow> (\<exists>raw comp. compressed_chunk env dt sc = Inr (raw, comp))"
  using assms
proof (induction chs arbitrary: ci st res)
  case Nil
  then show ?case by simp
next
  case (Cons ch chs)
  from Cons.prems obtain ch1 st1 res1 where
    st: "write_cell env h off ci ch (wd ! ci) st = Inr (ch1, st1)"
    and rest: "write_cells env h off wd (Suc ci) chs st1 = Inr res1"
    by (auto simp: bind_Inr_iff split: prod.splits)
  from st obtain st2 where "write_categories env off (wd ! ci) categories (ch, snd st) = Inr st2"
    by (cases st) (auto simp: write_cell_def bind_Inr_iff)
  from write_categories_chunks_ok[OF this]
  have z: "\<forall>dt sc. Chunk sc \<in> set ((wd ! ci) dt)
           \<longrightarrow> (\<exists>raw comp. compressed_chunk env dt sc = Inr (raw, comp))"
    by (simp add: set_categories)
  show ?case
  proof (intro allI impI)
    fix j dt sc
    assume j: "j < length (ch # chs)" and c: "Chunk sc \<in> set ((wd ! (ci + j)) dt)"
    show "\<exists>raw comp. compressed_chunk env dt sc = Inr (raw, comp)"
    proof (cases j)
      case 0
      with z c show ?thesis by simp
    next
      case (Suc j')
      with j c Cons.IH[OF rest] show ?thesis by auto
    qed
  qed
qed

lemma slots_match_iff:
  "slots_match t \<longleftrightarrow> length (cell_headers t) = length (world_data t)
     \<and> (\<forall>j < length (cell_headers t). one_entry_per_slot (cell_headers t ! j) (world_data t ! j))"
  by (simp add: slots_match_def list_all2_conv_all_nth)

lemma write_file_layout:
  assumes w: "write_file env self validate = Inr r"
    and sm: "slots_match self"
    and h: "header self = Some h"
  shows "cell_header_offset h = 60"
    and "\<exists>hb. write_header h [] = Inr hb \<and> length hb = 60
          \<and> output_bytes r = hb @ concat (map cell_header_bytes (new_cell_headers r))
               @ concat (map (cell_blob env) (world_data self))"
    and "length (new_cell_headers r) = length (cell_headers self)"
    and "\<forall>j < length (cell_headers self).
          create_cell_header (new_cell_headers r ! j) = Inr (cell_header_bytes (new_cell_headers r ! j))
          \<and> length (cell_header_bytes (new_cell_headers r ! j)) = 388
          \<and> (\<forall>dt. ch_count ((new_cell_headers r ! j) dt) = ch_count ((cell_headers self ! j) dt)
                \<and> arity (ch_index ((new_cell_headers r ! j) dt))
                    = arity (ch_index ((cell_headers self ! j) dt))
                \<and> is_multi (ch_index ((new_cell_headers r ! j) dt))
                    = is_multi (ch_index ((cell_headers self ! j) dt)))
          \<and> (\<forall>dt k. k < length ((world_data self ! j) dt) \<longrightarrow>
                descriptor_of ((new_cell_headers r ! j) dt) k
                  = expected_descriptor env (60 + 388 * length (cell_headers self))
                      (blob_before env (world_data self) j dt k)
                      dt ((world_data self ! j) dt ! k)
                      (descriptor_of ((cell_headers self ! j) dt) k))"
    and "\<forall>j < length (cell_headers self). \<forall>dt sc. Chunk sc \<in> set ((world_data self ! j) dt)
           \<longrightarrow> (\<exists>raw comp. compressed_chunk env dt sc = Inr (raw, comp))"
proof -
  let ?n = "length (cell_headers self)"
  let ?X = "replicate (CELL_DATA_SIZE * ?n) (of_char CHR ''X'' :: byte)"
  from w h obtain hb chs nd blob where
    hb: "write_header h [] = Inr hb"
    and off: "int (length hb) = cell_header_offset h"
    and wc: "write_cells env h (length (hb @ ?X)) (world_data self) 0 (cell_headers self)
               (hb @ ?X, []) = Inr (chs, nd, blob)"
    and out: "output_bytes r = nd @ blob" and nch: "new_cell_headers r = chs"
    by (auto simp: write_file_def bind_Inr_iff Let_def
             split: if_splits prod.splits sum.splits)
  have lhb: "length hb = 60" using length_write_header[OF hb] by simp
  with off show ho: "cell_header_offset h = 60" by simp
  then have ho': "cell_header_offset h = int 60" by simp
  from sm have len: "?n = length (world_data self)"
    and os: "\<forall>j < ?n. one_entry_per_slot (cell_headers self ! j) (world_data self ! (0 + j))"
    by (simp_all add: slots_match_iff)
  have le: "0 + ?n \<le> length (world_data self)" using len by simp
  have nd0: "hb @ ?X = hb @ ?X @ []" by simp
  have lp: "length hb = 60 + 388 * 0" using lhb by simp
  have lm: "length ?X = 388 * ?n" by (simp add: CELL_DATA_SIZE_def)
  have offv: "length (hb @ ?X) = 60 + 388 * ?n" using lhb by (simp add: CELL_DATA_SIZE_def)
  note lay = write_cells_layout[OF wc ho' os le nd0 lp lm, unfolded offv]
  show "\<exists>hb. write_header h [] = Inr hb \<and> length hb = 60
          \<and> output_bytes r = hb @ concat (map cell_header_bytes (new_cell_headers r))
               @ concat (map (cell_blob env) (world_data self))"
    using lay hb lhb out nch len by auto
  show "length (new_cell_headers r) = ?n" using lay nch by simp
  show "\<forall>j < length (cell_headers self).
          create_cell_header (new_cell_headers r ! j) = Inr (cell_header_bytes (new_cell_headers r ! j))
          \<and> length (cell_header_bytes (new_cell_headers r ! j)) = 388
          \<and> (\<forall>dt. ch_count ((new_cell_headers r ! j) dt) = ch_count ((cell_headers self ! j) dt)
                \<and> arity (ch_index ((new_cell_headers r ! j) dt))
                    = arity (ch_index ((cell_headers self ! j) dt))
                \<and> is_multi (ch_index ((new_cell_headers r ! j) dt))
                    = is_multi (ch_index ((cell_headers self ! j) dt)))
          \<and> (\<forall>dt k. k < length ((world_data self ! j) dt) \<longrightarrow>
                descriptor_of ((new_cell_headers r ! j) dt) k
                  = expected_descriptor env (60 + 388 * length (cell_headers self))
                      (blob_before env (world_data self) j dt k)
                      dt ((world_data self ! j) dt ! k)
                      (descriptor_of ((cell_headers self ! j) dt) k))"
    using lay nch by (simp add: blob_before_def)
  show "\<forall>j < length (cell_headers self). \<forall>dt sc. Chunk sc \<in> set ((world_data self ! j) dt)
           \<longrightarrow> (\<exists>raw comp. compressed_chunk env dt sc = Inr (raw, comp))"
    using write_cells_chunks_ok[OF wc] by simp
qed

lemma takeWhile_split: "x \<in> set xs \<Longrightarrow> \<exists>ys. xs = takeWhile (\<lambda>c. c \<noteq> x) xs @ x # ys"
proof (induction xs)
  case Nil
  then show ?case by simp
next
  case (Cons a xs)
  then show ?case by (cases "a = x") auto
qed

lemma length_concat_fixed:
  "\<forall>b \<in> set bs. length b = n \<Longrightarrow> length (concat bs) = n * length bs"
  by (induction bs) simp_all

lemma blob_before_Suc:
  "i < length ((wd ! ci) dt) \<Longrightarrow>
     blob_before env wd ci dt (Suc i) = blob_before env wd ci dt i @ chunk_payload env dt ((wd ! ci) dt ! i)"
  by (simp add: blob_before_def blob_in_cell_before_def take_Suc_conv_app_nth)

lemma blob_split:
  assumes ci: "ci < length wd" and i: "i < length ((wd ! ci) dt)"
  shows "\<exists>rest. concat (map (cell_blob env) wd)
           = blob_before env wd ci dt i @ chunk_payload env dt ((wd ! ci) dt ! i) @ rest"
proof -
  let ?cell = "wd ! ci"
  have dt: "dt \<in> set categories" by (simp add: set_categories)
  from takeWhile_split[OF dt] obtain cs where
    cs: "categories = takeWhile (\<lambda>c. c \<noteq> dt) categories @ dt # cs" by blast
  have "cell_blob env ?cell
      = concat (map (category_blob env ?cell) (takeWhile (\<lambda>c. c \<noteq> dt) categories @ dt # cs))"
    unfolding cell_blob_def using cs by simp
  also have "\<dots> = concat (map (category_blob env ?cell) (takeWhile (\<lambda>c. c \<noteq> dt) categories))
      @ category_blob env ?cell dt @ concat (map (category_blob env ?cell) cs)"
    by simp
  finally have cb: "cell_blob env ?cell
      = concat (map (category_blob env ?cell) (takeWhile (\<lambda>c. c \<noteq> dt) categories))
      @ category_blob env ?cell dt @ concat (map (category_blob env ?cell) cs)" .
  have "?cell dt = take i (?cell dt) @ (?cell dt ! i) # drop (Suc i) (?cell dt)"
    using i by (simp add: id_take_nth_drop[symmetric])
  then have "category_blob env ?cell dt
      = concat (map (chunk_payload env dt) (take i (?cell dt) @ (?cell dt ! i) # drop (Suc i) (?cell dt)))"
    unfolding category_blob_def by simp
  then have cat: "category_blob env ?cell dt
      = concat (map (chunk_payload env dt) (take i (?cell dt)))
        @ chunk_payload env dt (?cell dt ! i)
        @ concat (map (chunk_payload env dt) (drop (Suc i) (?cell dt)))"
    by simp
  have "wd = take ci wd @ ?cell # drop (Suc ci) wd"
    using ci by (simp add: id_take_nth_drop[symmetric])
  then have "concat (map (cell_blob env) wd)
      = concat (map (cell_blob env) (take ci wd @ ?cell # drop (Suc ci) wd))"
    by simp
  also have "\<dots> = concat (map (cell_blob env) (take ci wd)) @ cell_blob env ?cell
      @ concat (map (cell_blob env) (drop (Suc ci) wd))"
    by simp
  finally show ?thesis
    unfolding blob_before_def blob_in_cell_before_def
    by (simp add: cb cat)
qed

lemma written_descriptor:
  assumes "write_file env self validate = Inr r"
    and "slots_match self"
    and "header self = Some h"
    and "cell_index < length (cell_headers self)"
    and "i < length ((world_data self ! cell_index) data_type)"
    and "(world_data self ! cell_index) data_type ! i = Chunk sc"
  shows "\<exists>raw compressed.
           encode sc (map_option snd (read_write_functions env data_type)) = Inr raw
         \<and> lz4_compress env raw = Inr compressed
         \<and> blob_before env (world_data self) cell_index data_type (Suc i)
             = blob_before env (world_data self) cell_index data_type i @ compressed
         \<and> descriptor_of ((new_cell_headers r ! cell_index) data_type) i
             = \<lparr> d_index = int (length (blob_before env (world_data self) cell_index data_type i))
                   + (cell_header_offset h + 388 * int (length (cell_headers self))),
                 d_compressed_size = int (length compressed),
                 d_uncompressed_size = int (length raw) \<rparr>"
proof -
  note lay = write_file_layout[OF assms(1,2,3)]
  have "Chunk sc \<in> set ((world_data self ! cell_index) data_type)"
    using assms(5,6) by (metis nth_mem)
  with lay(5) assms(4) obtain raw comp where
    cc: "compressed_chunk env data_type sc = Inr (raw, comp)" by blast
  from cc have e: "encode sc (map_option snd (read_write_functions env data_type)) = Inr raw"
    and c: "lz4_compress env raw = Inr comp"
    by (auto simp: compressed_chunk_def bind_Inr_iff)
  have p: "chunk_payload env data_type ((world_data self ! cell_index) data_type ! i) = comp"
    using cc assms(6) by (simp add: chunk_payload_def)
  from lay(4) assms(4,5) have
    "descriptor_of ((new_cell_headers r ! cell_index) data_type) i
       = expected_descriptor env (60 + 388 * length (cell_headers self))
           (blob_before env (world_data self) cell_index data_type i)
           data_type ((world_data self ! cell_index) data_type ! i)
           (descriptor_of ((cell_headers self ! cell_index) data_type) i)"
    by blast
  then have d: "descriptor_of ((new_cell_headers r ! cell_index) data_type) i
             = \<lparr> d_index = int (length (blob_before env (world_data self) cell_index data_type i))
                   + (cell_header_offset h + 388 * int (length (cell_headers self))),
                 d_compressed_size = int (length comp),
                 d_uncompressed_size = int (length raw) \<rparr>"
    using cc assms(6) lay(1) by (simp add: expected_descriptor_def)
  from e c blob_before_Suc[OF assms(5), of env] p d show ?thesis by auto
qed

text \<open>
  Claim C2: after \<open>write_file\<close> on a tile with one world-data entry per descriptor slot,
  every slot that holds a chunk has been encoded and compressed, its compressed bytes
  follow in the data blob the bytes of all entries visited before it (cells, then
  categories, then slots, in order), and its descriptor is: index = length of the blob
  before the append + the offset where the blob starts
  (\<open>cell_header_offset + 388 * number of cells\<close>), compressed size = length of the
  compressed bytes, uncompressed size = length of the raw bytes.
\<close>

theorem offset_reconstruction:
  assumes "write_file env self validate = Inr r"
    and "slots_match self"
    and "header self = Some h"
    and "cell_index < length (cell_headers self)"
    and "i < length ((world_data self ! cell_index) data_type)"
    and "(world_data self ! cell_index) data_type ! i = Chunk sc"
  shows "\<exists>raw compressed.
           encode sc (map_option snd (read_write_functions env data_type)) = Inr raw
         \<and> lz4_compress env raw = Inr compressed
         \<and> blob_before env (world_data self) cell_index data_type (Suc i)
             = blob_before env (world_data self) cell_index data_type i @ compressed
         \<and> descriptor_of ((new_cell_headers r ! cell_index) data_type) i
             = \<lparr> d_index = int (length (blob_before env (world_data self) cell_index data_type i))
                   + (cell_header_offset h + 388 * int (length (cell_headers self))),
                 d_compressed_size = int (length compressed),
                 d_uncompressed_size = int (length raw) \<rparr>"
  using assms by (rule written_descriptor)

text \<open>
  Claim C3: after \<open>write_file\<close>, every descriptor of a slot that holds a chunk satisfies
  \<open>index + compressed_size \<le> len(output_bytes)\<close>.
\<close>

theorem bounds_invariant:
  assumes "write_file env self validate = Inr r"
    and "slots_match self"
    and "cell_index < length (cell_headers self)"
    and "i < length ((world_data self ! cell_index) data_type)"
    and "(world_data self ! cell_index) data_type ! i = Chunk sc"
  shows "d_index (descriptor_of ((new_cell_headers r ! cell_index) data_type) i)
           + d_compressed_size (descriptor_of ((new_cell_headers r ! cell_index) data_type) i)
         \<le> int (length (output_bytes r))"
proof -
  from write_file_header_offset[OF assms(1)] obtain h where h: "header self = Some h"
    and ho: "cell_header_offset h = 60" by blast
  note lay = write_file_layout[OF assms(1,2) h]
  let ?wd = "world_data self"
  let ?n = "length (cell_headers self)"
  from written_descriptor[OF assms(1,2) h assms(3,4,5)] obtain raw :: bytes and comp where
    s: "blob_before env ?wd cell_index data_type (Suc i)
          = blob_before env ?wd cell_index data_type i @ comp"
    and d: "descriptor_of ((new_cell_headers r ! cell_index) data_type) i
             = \<lparr> d_index = int (length (blob_before env ?wd cell_index data_type i))
                   + (cell_header_offset h + 388 * int ?n),
                 d_compressed_size = int (length comp),
                 d_uncompressed_size = int (length raw) \<rparr>"
    by (elim exE conjE)
  from assms(2,3) have ci: "cell_index < length ?wd" by (simp add: slots_match_iff)
  from blob_split[OF ci assms(4), of env] blob_before_Suc[OF assms(4), of env] s
  obtain rest where
    b: "concat (map (cell_blob env) ?wd) = blob_before env ?wd cell_index data_type i @ comp @ rest"
    by auto
  from lay(2) obtain hb where lhb: "length hb = 60"
    and out: "output_bytes r = hb @ concat (map cell_header_bytes (new_cell_headers r))
               @ concat (map (cell_blob env) ?wd)"
    by blast
  have "length (concat (map cell_header_bytes (new_cell_headers r))) = 388 * ?n"
  proof -
    have "\<forall>b \<in> set (map cell_header_bytes (new_cell_headers r)). length b = 388"
      using lay(3,4) by (auto simp: in_set_conv_nth)
    from length_concat_fixed[OF this] lay(3) show ?thesis by simp
  qed
  with out lhb b have "length (output_bytes r)
      = 60 + 388 * ?n + length (blob_before env ?wd cell_index data_type i) + length comp
          + length rest"
    by simp
  with d ho show ?thesis by simp
qed

section \<open>Cell headers written and parsed back\<close>

lemma unpack_i_pack:
  assumes "- (2 ^ 31) \<le> v" "v < 2 ^ 31"
  shows "unpack_i (le_bytes 4 (v mod 2 ^ 32)) = v"
proof -
  have "le_int (le_bytes 4 (v mod 2 ^ 32)) = v mod 2 ^ 32"
    by (rule le_int_le_bytes) simp_all
  moreover have "v mod 2 ^ 32 = (if 0 \<le> v then v else v + 2 ^ 32)"
  proof (cases "0 \<le> v")
    case True
    with assms show ?thesis by (simp add: mod_pos_pos_trivial)
  next
    case False
    have "(v + 2 ^ 32) mod 2 ^ 32 = v + 2 ^ 32"
      using assms False by (intro mod_pos_pos_trivial) simp_all
    moreover have "(v + 2 ^ 32) mod 2 ^ 32 = v mod 2 ^ 32"
      by simp
    ultimately show ?thesis using False by simp
  qed
  ultimately show ?thesis using assms by (simp add: unpack_i_def Let_def)
qed

lemma chunks4_concat:
  "\<forall>b \<in> set bs. length b = 4 \<Longrightarrow> chunks4 (concat bs) = bs"
proof (induction bs)
  case Nil
  then show ?case by simp
next
  case (Cons b bs)
  then have "length b = Suc (Suc (Suc (Suc 0)))" by simp
  then obtain a1 a2 a3 a4 where "b = [a1, a2, a3, a4]"
    by (auto simp: length_Suc_conv)
  with Cons show ?case by simp
qed

lemma pack_all_i_Inr:
  "pack_all_i fs = Inr b \<Longrightarrow>
     \<exists>vs. fs = map Single vs \<and> (\<forall>v \<in> set vs. - (2 ^ 31) \<le> v \<and> v < 2 ^ 31)
        \<and> b = concat (map (\<lambda>v. le_bytes 4 (v mod 2 ^ 32)) vs)"
proof (induction fs arbitrary: b rule: pack_all_i.induct)
  case 1
  then show ?case by simp
next
  case (2 v fs)
  from "2.prems" obtain b1 r where p: "pack_i v = Inr b1" and r: "pack_all_i fs = Inr r"
    and b: "b = b1 @ r"
    by (auto simp: bind_Inr_iff)
  from "2.IH"[OF r] obtain vs where vs: "fs = map Single vs"
    "\<forall>v \<in> set vs. - (2 ^ 31) \<le> v \<and> v < 2 ^ 31"
    "r = concat (map (\<lambda>v. le_bytes 4 (v mod 2 ^ 32)) vs)"
    by blast
  from p have "- (2 ^ 31) \<le> v \<and> v < 2 ^ 31" "b1 = le_bytes 4 (v mod 2 ^ 32)"
    by (auto simp: pack_i_def split: if_splits)
  with vs b show ?case
    by (intro exI[of _ "v # vs"]) simp
next
  case (3 xs fs)
  then show ?case by simp
qed

lemma struct_unpack_pack:
  assumes "struct_pack_i fmt fs = Inr b"
  shows "\<exists>vs. fs = map Single vs \<and> struct_unpack_i fmt b = Inr vs \<and> length b = 4 * sum_list fmt"
proof -
  from assms have l: "length fs = sum_list fmt" and p: "pack_all_i fs = Inr b"
    by (auto simp: struct_pack_i_def split: if_splits)
  from pack_all_i_Inr[OF p] obtain vs where vs: "fs = map Single vs"
    "\<forall>v \<in> set vs. - (2 ^ 31) \<le> v \<and> v < 2 ^ 31"
    "b = concat (map (\<lambda>v. le_bytes 4 (v mod 2 ^ 32)) vs)"
    by blast
  have c: "chunks4 b = map (\<lambda>v. le_bytes 4 (v mod 2 ^ 32)) vs"
    unfolding vs(3) by (rule chunks4_concat) auto
  have u: "unpack_i (le_bytes 4 (v mod 2 ^ 32)) = v" if "v \<in> set vs" for v
    using vs(2) that by (intro unpack_i_pack) blast+
  have "map unpack_i (map (\<lambda>v. le_bytes 4 (v mod 2 ^ 32)) vs) = map (\<lambda>v. v) vs"
    unfolding map_map by (rule map_cong[OF refl]) (simp only: o_def u)
  then have "map unpack_i (chunks4 b) = vs"
    unfolding c by simp
  moreover have "length b = 4 * length vs"
    unfolding vs(3) using length_concat_fixed[of "map (\<lambda>v. le_bytes 4 (v mod 2 ^ 32)) vs" 4]
    by simp
  ultimately show ?thesis using vs(1) l by (auto simp: struct_unpack_i_def)
qed

lemma sequence_append:
  "sequence (a @ b) = Inr r \<longleftrightarrow>
     (\<exists>ra rb. sequence a = Inr ra \<and> sequence b = Inr rb \<and> r = ra @ rb)"
proof (induction a arbitrary: r)
  case Nil
  then show ?case by simp
next
  case (Cons m a)
  show ?case
  proof (cases m)
    case (Inl e)
    then show ?thesis by simp
  next
    case (Inr x)
    then show ?thesis by (auto simp: bind_Inr_iff Cons.IH)
  qed
qed

lemma sequence_items_Inr:
  assumes "sequence (items m n) = Inr r" and "0 < n"
  shows "\<exists>f xs. m = Inr f \<and> f = Multi xs \<and> n \<le> length xs
           \<and> r = map (\<lambda>i. Single (slot f i)) [0..<n]"
proof -
  let ?g = "\<lambda>i. bind m (\<lambda>f. bind (item f i) (\<lambda>v. Inr (Single v)))"
  from assms(1) have s: "sequence (map ?g [0..<n]) = Inr r" by (simp add: items_def)
  from sequence_map_Inr[OF s] have l: "length r = n"
    and k: "\<And>k. k < n \<Longrightarrow> ?g k = Inr (r ! k)" by auto
  from k[of "n - 1"] assms(2) obtain f v where m: "m = Inr f" and "item f (n - 1) = Inr v"
    by (auto simp: bind_Inr_iff)
  then obtain xs where f: "f = Multi xs" and n: "n - 1 < length xs"
    by (auto simp: item_def split: field.splits if_splits)
  have "r ! k = Single (slot f k)" if "k < n" for k
    using k[OF that] m f n that by (auto simp: item_def slot_def bind_Inr_iff split: if_splits)
  then have "r = map (\<lambda>i. Single (slot f i)) [0..<n]"
    using l by (intro nth_equalityI) simp_all
  with m f n assms(2) show ?thesis by auto
qed

lemma group_multi:
  assumes "sequence (items (Inr (ch_index chd)) n @ items (Inr (ch_compressed chd)) n
             @ items (Inr (ch_size chd)) n) = Inr r" and "0 < n"
  shows "r = map Single (group_values chd False n)"
    and "is_multi (ch_index chd)" and "n \<le> arity (ch_index chd)"
proof -
  from assms(1) obtain r1 r2 r3 where
    "sequence (items (Inr (ch_index chd)) n) = Inr r1"
    "sequence (items (Inr (ch_compressed chd)) n) = Inr r2"
    "sequence (items (Inr (ch_size chd)) n) = Inr r3" and r: "r = r1 @ r2 @ r3"
    by (auto simp: sequence_append)
  from this(1,2,3)[THEN sequence_items_Inr, OF assms(2)] r
  show "r = map Single (group_values chd False n)"
    and "is_multi (ch_index chd)" and "n \<le> arity (ch_index chd)"
    by (auto simp: group_values_def is_multi_def arity_def)
qed

lemma group_multi_count:
  assumes "sequence (items (count_of chd) n @ items (Inr (ch_index chd)) n
             @ items (Inr (ch_compressed chd)) n @ items (Inr (ch_size chd)) n) = Inr r"
    and "0 < n"
  shows "r = map Single (group_values chd True n)"
    and "is_multi (ch_index chd)" and "n \<le> arity (ch_index chd)"
proof -
  from assms(1) obtain r0 r' where
    c: "sequence (items (count_of chd) n) = Inr r0"
    and g: "sequence (items (Inr (ch_index chd)) n @ items (Inr (ch_compressed chd)) n
             @ items (Inr (ch_size chd)) n) = Inr r'" and r: "r = r0 @ r'"
    by (auto simp: sequence_append)
  from sequence_items_Inr[OF c assms(2)] obtain f where
    "count_of chd = Inr f" and r0: "r0 = map (\<lambda>i. Single (slot f i)) [0..<n]"
    by blast
  then have "ch_count chd = Some f"
    by (auto simp: count_of_def split: option.splits)
  then have "r0 = map Single (map (\<lambda>i. the (count_slot chd i)) [0..<n])"
    using r0 by (simp add: count_slot_def)
  with group_multi[OF g assms(2)] r
  show "r = map Single (group_values chd True n)"
    and "is_multi (ch_index chd)" and "n \<le> arity (ch_index chd)"
    by (simp_all add: group_values_def)
qed

lemma Single_slot: "f = Single v \<Longrightarrow> f = Single (slot f 0)"
  by (simp add: slot_def)

lemma group_single:
  assumes "sequence [Inr (ch_index chd), Inr (ch_compressed chd), Inr (ch_size chd)] = Inr r"
    and "\<forall>f \<in> set r. \<exists>v. f = Single v"
  shows "r = map Single (group_values chd False 1)"
    and "\<not> is_multi (ch_index chd)"
proof -
  from assms(1) have r: "r = [ch_index chd, ch_compressed chd, ch_size chd]" by auto
  with assms(2) obtain a b c where
    "ch_index chd = Single a" "ch_compressed chd = Single b" "ch_size chd = Single c"
    by auto
  with r show "r = map Single (group_values chd False 1)" and "\<not> is_multi (ch_index chd)"
    by (simp_all add: group_values_def slot_def is_multi_def)
qed

lemma group_single_count:
  assumes "sequence [count_of chd, Inr (ch_index chd), Inr (ch_compressed chd),
                     Inr (ch_size chd)] = Inr r"
    and "\<forall>f \<in> set r. \<exists>v. f = Single v"
  shows "r = map Single (group_values chd True 1)"
    and "\<not> is_multi (ch_index chd)"
proof -
  from assms(1) obtain f where c: "count_of chd = Inr f"
    and r: "r = [f, ch_index chd, ch_compressed chd, ch_size chd]"
    by (auto simp: bind_Inr_iff)
  from c have cc: "ch_count chd = Some f"
    by (auto simp: count_of_def split: option.splits)
  from r assms(2) obtain z a b c where
    "f = Single z" "ch_index chd = Single a" "ch_compressed chd = Single b"
    "ch_size chd = Single c"
    by auto
  with r cc show "r = map Single (group_values chd True 1)" and "\<not> is_multi (ch_index chd)"
    by (simp_all add: group_values_def slot_def is_multi_def count_slot_def)
qed

lemma values_of_unfold:
  "values_of ch =
     group_values (ch Mip) False 6 @ group_values (ch Clutter) False 1
     @ group_values (ch Assets) True 4 @ group_values (ch Blueprint) True 1
     @ group_values (ch Node) True 1 @ group_values (ch Script) True 1
     @ group_values (ch Prefab) True 1 @ group_values (ch Decal) True 1
     @ group_values (ch Harvestable) True 4 @ group_values (ch Kinematics) True 4
     @ group_values (ch Unknown) True 1 @ group_values (ch Voxel_terrain) True 1"
  by (simp add: values_of_def categories_def has_count_def slot_count_def)

lemma create_cell_header_values:
  assumes "create_cell_header ch = Inr b"
  shows "struct_unpack_i cell_format b = Inr (values_of ch)"
    and "length b = 388"
    and "\<forall>dt. is_multi (ch_index (ch dt)) = (1 < slot_count dt)
              \<and> slot_count dt \<le> arity (ch_index (ch dt))"
proof -
  from assms obtain fs where sq: "sequence (cell_data_of ch) = Inr fs"
    and pk: "struct_pack_i cell_format fs = Inr b"
    by (auto simp: create_cell_header_def bind_Inr_iff)
  from struct_unpack_pack[OF pk] obtain vs where fs: "fs = map Single vs"
    and un: "struct_unpack_i cell_format b = Inr vs"
    and lb: "length b = 4 * sum_list cell_format"
    by blast
  show "length b = 388" using lb by (simp add: sum_list_cell_format)
  define single :: "category \<Rightarrow> (error + field) list"
    where "single = (\<lambda>c. [Inr (ch_index (ch c)), Inr (ch_compressed (ch c)),
                                        Inr (ch_size (ch c))])"
  define single_c where "single_c = (\<lambda>c. [count_of (ch c), Inr (ch_index (ch c)),
                                        Inr (ch_compressed (ch c)), Inr (ch_size (ch c))])"
  define multi where "multi = (\<lambda>c n. items (Inr (ch_index (ch c))) n
     @ items (Inr (ch_compressed (ch c))) n @ items (Inr (ch_size (ch c))) n)"
  define multi_c where "multi_c = (\<lambda>c n. items (count_of (ch c)) n
     @ items (Inr (ch_index (ch c))) n
     @ items (Inr (ch_compressed (ch c))) n @ items (Inr (ch_size (ch c))) n)"
  have cd: "cell_data_of ch = multi Mip 6 @ single Clutter @ multi_c Assets 4
     @ single_c Blueprint @ single_c Node @ single_c Script @ single_c Prefab
     @ single_c Decal @ multi_c Harvestable 4 @ multi_c Kinematics 4
     @ single_c Unknown @ single_c Voxel_terrain"
    by (simp add: cell_data_of_def single_def single_c_def multi_def multi_c_def)
  from sq[unfolded cd] obtain r1 r2 r3 r4 r5 r6 r7 r8 r9 r10 r11 r12 where
    s: "sequence (multi Mip 6) = Inr r1" "sequence (single Clutter) = Inr r2"
       "sequence (multi_c Assets 4) = Inr r3" "sequence (single_c Blueprint) = Inr r4"
       "sequence (single_c Node) = Inr r5" "sequence (single_c Script) = Inr r6"
       "sequence (single_c Prefab) = Inr r7" "sequence (single_c Decal) = Inr r8"
       "sequence (multi_c Harvestable 4) = Inr r9" "sequence (multi_c Kinematics 4) = Inr r10"
       "sequence (single_c Unknown) = Inr r11" "sequence (single_c Voxel_terrain) = Inr r12"
    and r: "fs = r1 @ r2 @ r3 @ r4 @ r5 @ r6 @ r7 @ r8 @ r9 @ r10 @ r11 @ r12"
    unfolding sequence_append by blast
  have sg: "\<forall>f \<in> set fs. \<exists>v. f = Single v" using fs by auto
  then have sgs: "\<forall>f \<in> set r2. \<exists>v. f = Single v" "\<forall>f \<in> set r4. \<exists>v. f = Single v"
    "\<forall>f \<in> set r5. \<exists>v. f = Single v" "\<forall>f \<in> set r6. \<exists>v. f = Single v"
    "\<forall>f \<in> set r7. \<exists>v. f = Single v" "\<forall>f \<in> set r8. \<exists>v. f = Single v"
    "\<forall>f \<in> set r11. \<exists>v. f = Single v" "\<forall>f \<in> set r12. \<exists>v. f = Single v"
    unfolding r by simp_all
  note g1 = group_multi[OF s(1)[unfolded multi_def]]
  note g2 = group_single[OF s(2)[unfolded single_def] sgs(1)]
  note g3 = group_multi_count[OF s(3)[unfolded multi_c_def]]
  note g4 = group_single_count[OF s(4)[unfolded single_c_def] sgs(2)]
  note g5 = group_single_count[OF s(5)[unfolded single_c_def] sgs(3)]
  note g6 = group_single_count[OF s(6)[unfolded single_c_def] sgs(4)]
  note g7 = group_single_count[OF s(7)[unfolded single_c_def] sgs(5)]
  note g8 = group_single_count[OF s(8)[unfolded single_c_def] sgs(6)]
  note g9 = group_multi_count[OF s(9)[unfolded multi_c_def]]
  note g10 = group_multi_count[OF s(10)[unfolded multi_c_def]]
  note g11 = group_single_count[OF s(11)[unfolded single_c_def] sgs(7)]
  note g12 = group_single_count[OF s(12)[unfolded single_c_def] sgs(8)]
  have "fs = map Single (values_of ch)"
    unfolding r values_of_unfold map_append
    using g1(1) g2(1) g3(1) g4(1) g5(1) g6(1) g7(1) g8(1) g9(1) g10(1) g11(1) g12(1)
    by simp
  moreover have "inj Single" by (simp add: inj_def)
  ultimately have "vs = values_of ch"
    using fs by (simp add: inj_map_eq_map)
  with un show "struct_unpack_i cell_format b = Inr (values_of ch)" by simp
  show "\<forall>dt. is_multi (ch_index (ch dt)) = (1 < slot_count dt)
              \<and> slot_count dt \<le> arity (ch_index (ch dt))"
  proof
    fix dt
    have a1: "\<not> is_multi f \<Longrightarrow> 1 \<le> arity f" for f
      by (simp add: arity_def is_multi_def split: field.splits)
    show "is_multi (ch_index (ch dt)) = (1 < slot_count dt)
              \<and> slot_count dt \<le> arity (ch_index (ch dt))"
      using g1(2,3) g2(2) g3(2,3) g4(2) g5(2) g6(2) g7(2) g8(2) g9(2,3) g10(2,3) g11(2) g12(2)
        a1[of "ch_index (ch dt)"]
      by (cases dt) (simp_all add: slot_count_def)
  qed
qed

lemma length_group_values [simp]:
  "length (group_values chd c n) = (if c then 4 * n else 3 * n)"
  by (simp add: group_values_def)

lemma group_values_1_False:
  "group_values chd False (Suc 0)
     = [slot (ch_index chd) 0, slot (ch_compressed chd) 0, slot (ch_size chd) 0]"
  by (simp add: group_values_def)

lemma group_values_1_True:
  "group_values chd True (Suc 0) = [the (count_slot chd 0), slot (ch_index chd) 0,
      slot (ch_compressed chd) 0, slot (ch_size chd) 0]"
  by (simp add: group_values_def)

lemma slice_map_upt:
  "slice (group_values chd False n @ rest) 0 n = map (slot (ch_index chd)) [0..<n]"
  "slice (group_values chd False n @ rest) n (2 * n) = map (slot (ch_compressed chd)) [0..<n]"
  "slice (group_values chd False n @ rest) (2 * n) (3 * n) = map (slot (ch_size chd)) [0..<n]"
  "slice (group_values chd True n @ rest) 0 n = map (\<lambda>i. the (count_slot chd i)) [0..<n]"
  "slice (group_values chd True n @ rest) n (2 * n) = map (slot (ch_index chd)) [0..<n]"
  "slice (group_values chd True n @ rest) (2 * n) (3 * n) = map (slot (ch_compressed chd)) [0..<n]"
  "slice (group_values chd True n @ rest) (3 * n) (4 * n) = map (slot (ch_size chd)) [0..<n]"
  by (simp_all add: slice_def group_values_def)

lemma slice_skip:
  "length pre \<le> a \<Longrightarrow> slice (pre @ xs) a b = slice xs (a - length pre) (b - length pre)"
  by (simp add: slice_def)

lemma nth_skip:
  "length pre \<le> a \<Longrightarrow> (pre @ xs) ! a = xs ! (a - length pre)"
  by (simp add: nth_append)

lemmas slice_group_4 = slice_map_upt(4,5,6,7)[of _ 4, simplified]
lemmas slice_group_6 = slice_map_upt(1,2,3)[of _ 6, simplified]

lemma nth_group_1:
  "(group_values chd False (Suc 0) @ rest) ! 0 = slot (ch_index chd) 0"
  "(group_values chd False (Suc 0) @ rest) ! Suc 0 = slot (ch_compressed chd) 0"
  "(group_values chd False (Suc 0) @ rest) ! 2 = slot (ch_size chd) 0"
  "(group_values chd True (Suc 0) @ rest) ! 0 = the (count_slot chd 0)"
  "(group_values chd True (Suc 0) @ rest) ! Suc 0 = slot (ch_index chd) 0"
  "(group_values chd True (Suc 0) @ rest) ! 2 = slot (ch_compressed chd) 0"
  "(group_values chd True (Suc 0) @ rest) ! 3 = slot (ch_size chd) 0"
  "group_values chd True (Suc 0) ! 0 = the (count_slot chd 0)"
  "group_values chd True (Suc 0) ! Suc 0 = slot (ch_index chd) 0"
  "group_values chd True (Suc 0) ! 2 = slot (ch_compressed chd) 0"
  "group_values chd True (Suc 0) ! 3 = slot (ch_size chd) 0"
  by (simp_all add: group_values_1_False group_values_1_True)

lemma values_of_unfold':
  "values_of ch =
     group_values (ch Mip) False 6 @ group_values (ch Clutter) False 1
     @ group_values (ch Assets) True 4 @ group_values (ch Blueprint) True 1
     @ group_values (ch Node) True 1 @ group_values (ch Script) True 1
     @ group_values (ch Prefab) True 1 @ group_values (ch Decal) True 1
     @ group_values (ch Harvestable) True 4 @ group_values (ch Kinematics) True 4
     @ group_values (ch Unknown) True 1 @ group_values (ch Voxel_terrain) True 1 @ []"
  by (simp add: values_of_unfold)

lemmas cho_simps = cell_header_of_def descriptor_of_def
        slice_skip nth_skip slice_group_4 slice_group_6 nth_group_1

lemma slot_Single [simp]: "slot (Single v) i = v"
  by (simp add: slot_def)

lemma slot_Multi_map [simp]: "i < n \<Longrightarrow> slot (Multi (map f [0..<n])) i = f i"
  by (simp add: slot_def)

lemma cell_header_of_values:
  shows "i < slot_count dt \<Longrightarrow>
           descriptor_of (cell_header_of (values_of ch) dt) i = descriptor_of (ch dt) i"
    and "i < slot_count dt \<Longrightarrow> has_count dt \<Longrightarrow>
           count_slot (cell_header_of (values_of ch) dt) i = Some (the (count_slot (ch dt) i))"
    and "\<not> has_count dt \<Longrightarrow> ch_count (cell_header_of (values_of ch) dt) = None"
    and "arity (ch_index (cell_header_of (values_of ch) dt)) = slot_count dt"
    and "is_multi (ch_index (cell_header_of (values_of ch) dt)) = (1 < slot_count dt)"
  unfolding values_of_unfold'
  by (cases dt; simp add: cho_simps slot_count_def has_count_def count_slot_def
        arity_def is_multi_def)+

lemma parse_created:
  assumes "create_cell_header ch = Inr b"
  shows "parse_cell_header b = Inr (cell_header_of (values_of ch))"
proof -
  note v = create_cell_header_values[OF assms]
  from struct_unpack_i_length[OF v(1)] have "length (values_of ch) = 97"
    by (simp add: sum_list_cell_format)
  with v(1) show ?thesis
    by (simp add: parse_cell_header_def CELL_HEADER_SIZE_def)
qed

lemma nth_concat_fixed:
  "\<forall>b \<in> set bs. length b = n \<Longrightarrow> k < length bs \<Longrightarrow>
     take n (drop (n * k) (concat bs)) = bs ! k"
proof (induction bs arbitrary: k)
  case Nil
  then show ?case by simp
next
  case (Cons b bs)
  show ?case
  proof (cases k)
    case 0
    with Cons.prems show ?thesis by simp
  next
    case (Suc k')
    with Cons.prems have "take n (drop (n * k') (concat bs)) = bs ! k'"
      by (intro Cons.IH) simp_all
    with Suc Cons.prems show ?thesis by simp
  qed
qed

lemma slice_output_header:
  assumes w: "write_file env self validate = Inr r"
    and sm: "slots_match self"
    and ci: "ci < length (cell_headers self)"
  shows "slice (output_bytes r) (60 + 388 * ci) (60 + 388 * ci + 388)
           = cell_header_bytes (new_cell_headers r ! ci)"
proof -
  from write_file_header_offset[OF w] obtain h where h: "header self = Some h" by blast
  note lay = write_file_layout[OF w sm h]
  from lay(2) obtain hb where lhb: "length hb = 60"
    and out: "output_bytes r = hb @ concat (map cell_header_bytes (new_cell_headers r))
               @ concat (map (cell_blob env) (world_data self))"
    by blast
  let ?bs = "map cell_header_bytes (new_cell_headers r)"
  have a: "\<forall>b \<in> set ?bs. length b = 388"
    using lay(3,4) by (auto simp: in_set_conv_nth)
  have k: "ci < length ?bs" using lay(3) ci by simp
  have lc: "length (concat ?bs) = 388 * length ?bs"
    by (rule length_concat_fixed[OF a])
  have "388 * ci + 388 \<le> length (concat ?bs)"
    using k lc by simp
  then have "slice (output_bytes r) (60 + 388 * ci) (60 + 388 * ci + 388)
      = take 388 (drop (388 * ci) (concat ?bs))"
    unfolding out slice_def using lhb by simp
  also have "\<dots> = ?bs ! ci" by (rule nth_concat_fixed[OF a k])
  finally show ?thesis using k by simp
qed

text \<open>
  Claim C4: a slot whose world-data entry is the tuple of an absent chunk keeps its
  descriptor through \<open>write_file\<close>: the index, the compressed size and the size in the
  cell header of the object are those it had before, and the cell header written at
  \<open>60 + 388 * cell_index\<close> in the output parses back to the same three values.
\<close>

theorem absent_descriptor_stability:
  assumes "write_file env self validate = Inr r"
    and "slots_match self"
    and "cell_index < length (cell_headers self)"
    and "i < length ((world_data self ! cell_index) data_type)"
    and "(world_data self ! cell_index) data_type ! i = Placeholder a b c"
  shows "descriptor_of ((new_cell_headers r ! cell_index) data_type) i
           = descriptor_of ((cell_headers self ! cell_index) data_type) i
         \<and> (\<exists>written.
               parse_cell_header
                 (slice (output_bytes r) (60 + 388 * cell_index) (60 + 388 * cell_index + 388))
                 = Inr written
             \<and> (i < slot_count data_type \<longrightarrow>
                  descriptor_of (written data_type) i
                    = descriptor_of ((cell_headers self ! cell_index) data_type) i))"
proof -
  from write_file_header_offset[OF assms(1)] obtain h where h: "header self = Some h" by blast
  note lay = write_file_layout[OF assms(1,2) h]
  let ?new = "new_cell_headers r ! cell_index"
  from lay(4) assms(3,4) have
    "descriptor_of (?new data_type) i
       = expected_descriptor env (60 + 388 * length (cell_headers self))
           (blob_before env (world_data self) cell_index data_type i)
           data_type ((world_data self ! cell_index) data_type ! i)
           (descriptor_of ((cell_headers self ! cell_index) data_type) i)"
    by blast
  then have d: "descriptor_of (?new data_type) i
                  = descriptor_of ((cell_headers self ! cell_index) data_type) i"
    using assms(5) by (simp add: expected_descriptor_def)
  from lay(4) assms(3) have c: "create_cell_header ?new = Inr (cell_header_bytes ?new)"
    by blast
  have p: "parse_cell_header
             (slice (output_bytes r) (60 + 388 * cell_index) (60 + 388 * cell_index + 388))
           = Inr (cell_header_of (values_of ?new))"
    unfolding slice_output_header[OF assms(1,2,3)] by (rule parse_created[OF c])
  from d p cell_header_of_values(1)[of i data_type ?new] show ?thesis by simp
qed

section \<open>Contiguity of the data blob\<close>

lemma concat_nth_pos:
  "q < length (concat xss) \<Longrightarrow>
     \<exists>a b. a < length xss \<and> b < length (xss ! a) \<and> concat xss ! q = xss ! a ! b
          \<and> take q (concat xss) = concat (take a xss) @ take b (xss ! a)"
proof (induction xss arbitrary: q)
  case Nil
  then show ?case by simp
next
  case (Cons xs xss)
  show ?case
  proof (cases "q < length xs")
    case True
    then show ?thesis
      by (intro exI[of _ 0] exI[of _ q]) (simp add: nth_append)
  next
    case False
    with Cons.prems have "q - length xs < length (concat xss)" by simp
    from Cons.IH[OF this] obtain a b where
      "a < length xss" "b < length (xss ! a)"
      "concat xss ! (q - length xs) = xss ! a ! b"
      "take (q - length xs) (concat xss) = concat (take a xss) @ take b (xss ! a)"
      by blast
    with False show ?thesis
      by (intro exI[of _ "Suc a"] exI[of _ b]) (simp add: nth_append)
  qed
qed

lemma takeWhile_distinct_nth:
  "distinct xs \<Longrightarrow> a < length xs \<Longrightarrow> takeWhile (\<lambda>c. c \<noteq> xs ! a) xs = take a xs"
  by (rule takeWhile_eq_take_P_nth) (auto simp: nth_eq_iff_index_eq)

lemma map_nth_upt: "n \<le> length xs \<Longrightarrow> map (\<lambda>i. f (xs ! i)) [0..<n] = map f (take n xs)"
  by (intro nth_equalityI) simp_all

lemma payload_category:
  "concat (map (payload_at env wd) (map (\<lambda>s. (ci, s)) (map (\<lambda>i. (dt, i)) [0..<n])))
     = concat (map (chunk_payload env dt) (take n ((wd ! ci) dt)))" if "n \<le> length ((wd ! ci) dt)"
proof -
  have "map (payload_at env wd) (map (\<lambda>s. (ci, s)) (map (\<lambda>i. (dt, i)) [0..<n]))
          = map (\<lambda>i. chunk_payload env dt ((wd ! ci) dt ! i)) [0..<n]"
    by (simp add: payload_at_def)
  also have "\<dots> = map (chunk_payload env dt) (take n ((wd ! ci) dt))"
    using that by (rule map_nth_upt)
  finally show ?thesis by simp
qed

lemma payload_categories:
  "concat (map (payload_at env wd) (map (\<lambda>s. (ci, s))
       (concat (map (\<lambda>dt. map (\<lambda>i. (dt, i)) [0..<length ((wd ! ci) dt)]) cats))))
     = concat (map (category_blob env (wd ! ci)) cats)"
proof (induction cats)
  case Nil
  then show ?case by simp
next
  case (Cons c cats)
  have "concat (map (payload_at env wd) (map (\<lambda>s. (ci, s))
          (map (\<lambda>i. (c, i)) [0..<length ((wd ! ci) c)])))
        = category_blob env (wd ! ci) c"
    using payload_category[of "length ((wd ! ci) c)" wd ci c env]
    by (simp add: category_blob_def)
  with Cons show ?case by simp
qed

lemma payload_cell:
  "concat (map (payload_at env wd) (map (\<lambda>s. (ci, s)) (cell_slots (wd ! ci))))
     = cell_blob env (wd ! ci)"
  unfolding cell_slots_def cell_blob_def by (rule payload_categories)

lemma payload_cells:
  "n \<le> length wd \<Longrightarrow>
   concat (map (payload_at env wd)
       (concat (map (\<lambda>ci. map (\<lambda>s. (ci, s)) (cell_slots (wd ! ci))) [0..<n])))
     = concat (map (cell_blob env) (take n wd))"
proof (induction n)
  case 0
  then show ?case by simp
next
  case (Suc n)
  then have "n < length wd" by simp
  with Suc payload_cell[of env wd n] show ?case
    by (simp add: take_Suc_conv_app_nth)
qed

lemma slots_of_position:
  assumes q: "q < length (slots_of wd)"
  shows "\<exists>ci dt i. slots_of wd ! q = (ci, dt, i) \<and> ci < length wd
           \<and> i < length ((wd ! ci) dt)
           \<and> concat (map (payload_at env wd) (take q (slots_of wd))) = blob_before env wd ci dt i"
proof -
  let ?F = "\<lambda>ci. map (\<lambda>s. (ci, s)) (cell_slots (wd ! ci))"
  let ?xss = "map ?F [0..<length wd]"
  from q have "q < length (concat ?xss)" by (simp add: slots_of_def)
  from concat_nth_pos[OF this] obtain ci b where
    ci: "ci < length wd" and b: "b < length (cell_slots (wd ! ci))"
    and el: "slots_of wd ! q = (ci, cell_slots (wd ! ci) ! b)"
    and tk: "take q (slots_of wd) = concat (take ci ?xss) @ take b (?F ci)"
    by (auto simp: slots_of_def)
  let ?cell = "wd ! ci"
  let ?G = "\<lambda>dt. map (\<lambda>i. (dt, i)) [0..<length (?cell dt)]"
  let ?yss = "map ?G categories"
  from b have "b < length (concat ?yss)" by (simp add: cell_slots_def)
  from concat_nth_pos[OF this] obtain a i where
    a: "a < length categories" and i: "i < length (?cell (categories ! a))"
    and el2: "cell_slots ?cell ! b = (categories ! a, i)"
    and tk2: "take b (cell_slots ?cell) = concat (take a ?yss) @ take i (?G (categories ! a))"
    by (auto simp: cell_slots_def)
  let ?dt = "categories ! a"
  have t1: "take ci ?xss = map ?F [0..<ci]"
    using ci by (simp add: take_map)
  have p1: "concat (map (payload_at env wd) (concat (take ci ?xss)))
              = concat (map (cell_blob env) (take ci wd))"
    unfolding t1 using ci by (intro payload_cells) simp
  have t2: "take a ?yss = map ?G (take a categories)"
    by (simp add: take_map)
  have t3: "take i (?G ?dt) = map (\<lambda>i. (?dt, i)) [0..<i]"
    using i by (simp add: take_map)
  have p2: "concat (map (payload_at env wd) (map (\<lambda>s. (ci, s)) (concat (take a ?yss))))
              = concat (map (category_blob env ?cell) (take a categories))"
    unfolding t2 by (rule payload_categories)
  have p3: "concat (map (payload_at env wd) (map (\<lambda>s. (ci, s)) (take i (?G ?dt))))
              = concat (map (chunk_payload env ?dt) (take i (?cell ?dt)))"
    unfolding t3 using i by (intro payload_category) simp
  have tw: "takeWhile (\<lambda>c. c \<noteq> ?dt) categories = take a categories"
    by (rule takeWhile_distinct_nth[OF distinct_categories a])
  have "concat (map (payload_at env wd) (take q (slots_of wd)))
      = concat (map (payload_at env wd) (concat (take ci ?xss)))
        @ concat (map (payload_at env wd) (map (\<lambda>s. (ci, s)) (take b (cell_slots ?cell))))"
    unfolding tk by (simp add: take_map)
  also have "\<dots> = concat (map (cell_blob env) (take ci wd))
        @ concat (map (category_blob env ?cell) (take a categories))
        @ concat (map (chunk_payload env ?dt) (take i (?cell ?dt)))"
    unfolding tk2 using p1 p2 p3 by simp
  also have "\<dots> = blob_before env wd ci ?dt i"
    by (simp add: blob_before_def blob_in_cell_before_def tw)
  finally show ?thesis using el el2 ci i by auto
qed

lemma payload_not_chunk: "\<not> is_chunk (entry wd s) \<Longrightarrow> payload_at env wd s = []"
  by (cases s) (auto simp: is_chunk_def entry_def payload_at_def chunk_payload_def
                     split: sub_cell.splits)

lemma concat_skip_empty:
  "p \<le> q \<Longrightarrow> q \<le> length xs \<Longrightarrow> (\<forall>m. p \<le> m \<and> m < q \<longrightarrow> f (xs ! m) = [])
     \<Longrightarrow> concat (map f (take q xs)) = concat (map f (take p xs))"
proof (induction q)
  case 0
  then show ?case by simp
next
  case (Suc q)
  show ?case
  proof (cases "p = Suc q")
    case True
    then show ?thesis by simp
  next
    case False
    with Suc.prems have "p \<le> q" "q < length xs" "f (xs ! q) = []" by auto
    moreover from this Suc have "concat (map f (take q xs)) = concat (map f (take p xs))"
      by simp
    ultimately show ?thesis by (simp add: take_Suc_conv_app_nth)
  qed
qed

lemma written_at:
  assumes w: "write_file env self validate = Inr r"
    and sm: "slots_match self"
    and h: "header self = Some h"
    and q: "q < length (slots_of (world_data self))"
    and c: "is_chunk (entry (world_data self) (slots_of (world_data self) ! q))"
  shows "d_index (written (new_cell_headers r) (slots_of (world_data self) ! q))
           = int (length (concat (map (payload_at env (world_data self))
                                   (take q (slots_of (world_data self))))))
             + (cell_header_offset h + 388 * int (length (cell_headers self)))"
    and "d_compressed_size (written (new_cell_headers r) (slots_of (world_data self) ! q))
           = int (length (payload_at env (world_data self) (slots_of (world_data self) ! q)))"
proof -
  let ?wd = "world_data self"
  from slots_of_position[OF q, of env] obtain ci dt i where
    s: "slots_of ?wd ! q = (ci, dt, i)" and ci: "ci < length ?wd"
    and i: "i < length ((?wd ! ci) dt)"
    and b: "concat (map (payload_at env ?wd) (take q (slots_of ?wd))) = blob_before env ?wd ci dt i"
    by blast
  from c s obtain sc where sc: "(?wd ! ci) dt ! i = Chunk sc"
    by (auto simp: is_chunk_def entry_def split: sub_cell.splits)
  from sm ci have ci': "ci < length (cell_headers self)" by (simp add: slots_match_iff)
  from written_descriptor[OF w sm h ci' i sc] obtain raw :: bytes and comp where
    a: "blob_before env ?wd ci dt (Suc i) = blob_before env ?wd ci dt i @ comp"
    and d: "descriptor_of ((new_cell_headers r ! ci) dt) i
             = \<lparr> d_index = int (length (blob_before env ?wd ci dt i))
                   + (cell_header_offset h + 388 * int (length (cell_headers self))),
                 d_compressed_size = int (length comp),
                 d_uncompressed_size = int (length raw) \<rparr>"
    by (elim exE conjE)
  from a blob_before_Suc[OF i, of env] have "chunk_payload env dt ((?wd ! ci) dt ! i) = comp"
    by simp
  then have p: "payload_at env ?wd (slots_of ?wd ! q) = comp"
    using s by (simp add: payload_at_def)
  show "d_index (written (new_cell_headers r) (slots_of ?wd ! q))
           = int (length (concat (map (payload_at env ?wd) (take q (slots_of ?wd)))))
             + (cell_header_offset h + 388 * int (length (cell_headers self)))"
    using d s b by (simp add: written_def)
  show "d_compressed_size (written (new_cell_headers r) (slots_of ?wd ! q))
           = int (length (payload_at env ?wd (slots_of ?wd ! q)))"
    using d s p by (simp add: written_def)
qed

lemma payloads_blob:
  "concat (map (payload_at env wd) (slots_of wd)) = concat (map (cell_blob env) wd)"
  using payload_cells[of "length wd" wd env] by (simp add: slots_of_def)

lemma written_bytes:
  assumes w: "write_file env self validate = Inr r"
    and sm: "slots_match self"
    and h: "header self = Some h"
    and q: "q < length (slots_of (world_data self))"
    and c: "is_chunk (entry (world_data self) (slots_of (world_data self) ! q))"
  shows "\<exists>data_type sc raw compressed.
           data_type = fst (snd (slots_of (world_data self) ! q))
         \<and> entry (world_data self) (slots_of (world_data self) ! q) = Chunk sc
         \<and> compressed_chunk env data_type sc = Inr (raw, compressed)
         \<and> payload_at env (world_data self) (slots_of (world_data self) ! q) = compressed
         \<and> slice (output_bytes r)
              (nat (d_index (written (new_cell_headers r) (slots_of (world_data self) ! q))))
              (nat (d_index (written (new_cell_headers r) (slots_of (world_data self) ! q))
                    + d_compressed_size
                        (written (new_cell_headers r) (slots_of (world_data self) ! q))))
             = compressed"
    and "drop (nat (cell_header_offset h + 388 * int (length (cell_headers self))))
           (output_bytes r)
           = concat (map (payload_at env (world_data self)) (slots_of (world_data self)))"
    and "length (output_bytes r)
           = nat (cell_header_offset h + 388 * int (length (cell_headers self)))
             + length (concat (map (payload_at env (world_data self))
                                 (slots_of (world_data self))))"
proof -
  let ?wd = "world_data self"
  let ?n = "length (cell_headers self)"
  note lay = write_file_layout[OF w sm h]
  from lay(2) obtain hb where hb: "length hb = 60"
    and out: "output_bytes r = hb @ concat (map cell_header_bytes (new_cell_headers r))
               @ concat (map (cell_blob env) ?wd)"
    by blast
  let ?hs = "concat (map cell_header_bytes (new_cell_headers r))"
  have "\<forall>b \<in> set (map cell_header_bytes (new_cell_headers r)). length b = 388"
    using lay(3,4) by (auto simp: in_set_conv_nth)
  from length_concat_fixed[OF this] have lh: "length ?hs = 388 * ?n"
    using lay(3) by simp
  have pre: "length (hb @ ?hs) = nat (cell_header_offset h + 388 * int ?n)"
    using hb lh lay(1) by simp
  show "drop (nat (cell_header_offset h + 388 * int ?n)) (output_bytes r)
           = concat (map (payload_at env ?wd) (slots_of ?wd))"
    unfolding payloads_blob out using pre by simp
  show "length (output_bytes r)
           = nat (cell_header_offset h + 388 * int ?n)
             + length (concat (map (payload_at env ?wd) (slots_of ?wd)))"
    unfolding payloads_blob out using pre by simp
  from slots_of_position[OF q, of env] obtain ci dt i where
    s: "slots_of ?wd ! q = (ci, dt, i)" and ci: "ci < length ?wd"
    and i: "i < length ((?wd ! ci) dt)"
    and b: "concat (map (payload_at env ?wd) (take q (slots_of ?wd))) = blob_before env ?wd ci dt i"
    by blast
  from c s obtain sc where sc: "(?wd ! ci) dt ! i = Chunk sc"
    by (auto simp: is_chunk_def entry_def split: sub_cell.splits)
  from sm ci have ci': "ci < ?n" by (simp add: slots_match_iff)
  have "Chunk sc \<in> set ((?wd ! ci) dt)" using i sc by (metis nth_mem)
  with lay(5) ci' obtain raw :: bytes and comp where
    cc: "compressed_chunk env dt sc = Inr (raw, comp)" by blast
  have p: "payload_at env ?wd (slots_of ?wd ! q) = comp"
    using s sc cc by (simp add: payload_at_def chunk_payload_def)
  from written_at[OF w sm h q c] b p
  have di: "d_index (written (new_cell_headers r) (slots_of ?wd ! q))
              = int (length (blob_before env ?wd ci dt i))
                + (cell_header_offset h + 388 * int ?n)"
    and dc: "d_compressed_size (written (new_cell_headers r) (slots_of ?wd ! q))
              = int (length comp)"
    by simp_all
  from blob_split[OF ci i, of env] sc cc obtain rest where
    bs: "concat (map (cell_blob env) ?wd) = blob_before env ?wd ci dt i @ comp @ rest"
    by (auto simp: chunk_payload_def)
  let ?pre = "hb @ ?hs @ blob_before env ?wd ci dt i"
  have o: "output_bytes r = ?pre @ comp @ rest"
    unfolding out bs by simp
  have lp: "length ?pre = nat (d_index (written (new_cell_headers r) (slots_of ?wd ! q)))"
    unfolding di using hb lh lay(1) by simp
  have e: "nat (d_index (written (new_cell_headers r) (slots_of ?wd ! q))
                + d_compressed_size (written (new_cell_headers r) (slots_of ?wd ! q)))
             = length ?pre + length comp"
    unfolding di dc using hb lh lay(1) by simp
  have "slice (output_bytes r)
          (nat (d_index (written (new_cell_headers r) (slots_of ?wd ! q))))
          (nat (d_index (written (new_cell_headers r) (slots_of ?wd ! q))
                + d_compressed_size (written (new_cell_headers r) (slots_of ?wd ! q))))
        = comp"
    unfolding e lp[symmetric] o by (simp add: slice_def)
  with s sc cc p show "\<exists>data_type sc raw compressed.
           data_type = fst (snd (slots_of ?wd ! q))
         \<and> entry ?wd (slots_of ?wd ! q) = Chunk sc
         \<and> compressed_chunk env data_type sc = Inr (raw, compressed)
         \<and> payload_at env ?wd (slots_of ?wd ! q) = compressed
         \<and> slice (output_bytes r)
              (nat (d_index (written (new_cell_headers r) (slots_of ?wd ! q))))
              (nat (d_index (written (new_cell_headers r) (slots_of ?wd ! q))
                    + d_compressed_size (written (new_cell_headers r) (slots_of ?wd ! q))))
             = compressed"
    by (simp add: entry_def)
qed

text \<open>
  Claim C9: in the order in which \<open>write_file\<close> visits the slots, the first slot that
  holds a chunk gets the index \<open>cell_header_offset + 388 * number of cells\<close>, and every
  later slot that holds a chunk gets the index of the previous such slot plus the
  compressed size of that slot. In the bytes produced, the compressed bytes of the chunk
  of a slot lie at that index, over that compressed size; and the bytes that follow the
  cell headers are the compressed bytes of the chunks, one after the other in that order,
  and nothing else: the compressed payloads follow each other with no gap and no overlap.
\<close>

theorem blob_contiguity:
  assumes "write_file env self validate = Inr r"
    and "slots_match self"
    and "header self = Some h"
    and "q < length (slots_of (world_data self))"
    and "is_chunk (entry (world_data self) (slots_of (world_data self) ! q))"
  shows "((\<forall>m < q. \<not> is_chunk (entry (world_data self) (slots_of (world_data self) ! m)))
            \<longrightarrow> d_index (written (new_cell_headers r) (slots_of (world_data self) ! q))
                  = cell_header_offset h + 388 * int (length (cell_headers self)))
         \<and> (\<forall>p < q. is_chunk (entry (world_data self) (slots_of (world_data self) ! p))
                \<and> (\<forall>m. p < m \<and> m < q
                       \<longrightarrow> \<not> is_chunk (entry (world_data self) (slots_of (world_data self) ! m)))
            \<longrightarrow> d_index (written (new_cell_headers r) (slots_of (world_data self) ! q))
                  = d_index (written (new_cell_headers r) (slots_of (world_data self) ! p))
                    + d_compressed_size
                        (written (new_cell_headers r) (slots_of (world_data self) ! p)))
         \<and> (\<exists>data_type sc raw compressed.
                data_type = fst (snd (slots_of (world_data self) ! q))
              \<and> entry (world_data self) (slots_of (world_data self) ! q) = Chunk sc
              \<and> compressed_chunk env data_type sc = Inr (raw, compressed)
              \<and> payload_at env (world_data self) (slots_of (world_data self) ! q) = compressed
              \<and> d_compressed_size (written (new_cell_headers r) (slots_of (world_data self) ! q))
                  = int (length compressed)
              \<and> slice (output_bytes r)
                   (nat (d_index (written (new_cell_headers r) (slots_of (world_data self) ! q))))
                   (nat (d_index (written (new_cell_headers r) (slots_of (world_data self) ! q))
                         + d_compressed_size
                             (written (new_cell_headers r) (slots_of (world_data self) ! q))))
                  = compressed)
         \<and> drop (nat (cell_header_offset h + 388 * int (length (cell_headers self))))
              (output_bytes r)
             = concat (map (payload_at env (world_data self)) (slots_of (world_data self)))
         \<and> length (output_bytes r)
             = nat (cell_header_offset h + 388 * int (length (cell_headers self)))
               + length (concat (map (payload_at env (world_data self))
                                   (slots_of (world_data self))))"
proof -
  let ?wd = "world_data self"
  let ?ss = "slots_of ?wd"
  let ?f = "payload_at env ?wd"
  note wq = written_at[OF assms]
  have first: "d_index (written (new_cell_headers r) (?ss ! q))
                  = cell_header_offset h + 388 * int (length (cell_headers self))"
    if "\<forall>m < q. \<not> is_chunk (entry ?wd (?ss ! m))"
  proof -
    from that have "\<forall>m. 0 \<le> m \<and> m < q \<longrightarrow> ?f (?ss ! m) = []"
      by (simp add: payload_not_chunk)
    from concat_skip_empty[OF _ _ this] assms(4)
    have "concat (map ?f (take q ?ss)) = []" by simp
    with wq(1) show ?thesis by simp
  qed
  have later: "d_index (written (new_cell_headers r) (?ss ! q))
                  = d_index (written (new_cell_headers r) (?ss ! p))
                    + d_compressed_size (written (new_cell_headers r) (?ss ! p))"
    if p: "p < q"
      and c: "is_chunk (entry ?wd (?ss ! p))
                \<and> (\<forall>m. p < m \<and> m < q \<longrightarrow> \<not> is_chunk (entry ?wd (?ss ! m)))" for p
  proof -
    from p assms(4) have pl: "p < length ?ss" by simp
    note wp = written_at[OF assms(1,2,3) pl conjunct1[OF c]]
    from c have "\<forall>m. Suc p \<le> m \<and> m < q \<longrightarrow> ?f (?ss ! m) = []"
      by (simp add: payload_not_chunk)
    from concat_skip_empty[OF _ _ this] p assms(4)
    have "concat (map ?f (take q ?ss)) = concat (map ?f (take (Suc p) ?ss))" by simp
    also have "\<dots> = concat (map ?f (take p ?ss)) @ ?f (?ss ! p)"
      using pl by (simp add: take_Suc_conv_app_nth)
    finally show ?thesis using wq(1) wp by simp
  qed
  from written_bytes(1)[OF assms] obtain sc and raw :: bytes and compressed where
    b: "entry ?wd (?ss ! q) = Chunk sc"
       "compressed_chunk env (fst (snd (?ss ! q))) sc = Inr (raw, compressed)"
       "?f (?ss ! q) = compressed"
       "slice (output_bytes r)
          (nat (d_index (written (new_cell_headers r) (?ss ! q))))
          (nat (d_index (written (new_cell_headers r) (?ss ! q))
                + d_compressed_size (written (new_cell_headers r) (?ss ! q))))
         = compressed"
    by blast
  from wq(2) b(3) have sz: "d_compressed_size (written (new_cell_headers r) (?ss ! q))
                  = int (length compressed)"
    by simp
  show ?thesis
  proof (intro conjI)
    show "(\<forall>m < q. \<not> is_chunk (entry ?wd (?ss ! m)))
            \<longrightarrow> d_index (written (new_cell_headers r) (?ss ! q))
                  = cell_header_offset h + 388 * int (length (cell_headers self))"
      using first by blast
    show "\<forall>p < q. is_chunk (entry ?wd (?ss ! p))
                \<and> (\<forall>m. p < m \<and> m < q \<longrightarrow> \<not> is_chunk (entry ?wd (?ss ! m)))
            \<longrightarrow> d_index (written (new_cell_headers r) (?ss ! q))
                  = d_index (written (new_cell_headers r) (?ss ! p))
                    + d_compressed_size (written (new_cell_headers r) (?ss ! p))"
      using later by blast
    show "\<exists>data_type sc raw compressed.
                data_type = fst (snd (?ss ! q))
              \<and> entry ?wd (?ss ! q) = Chunk sc
              \<and> compressed_chunk env data_type sc = Inr (raw, compressed)
              \<and> ?f (?ss ! q) = compressed
              \<and> d_compressed_size (written (new_cell_headers r) (?ss ! q))
                  = int (length compressed)
              \<and> slice (output_bytes r)
                   (nat (d_index (written (new_cell_headers r) (?ss ! q))))
                   (nat (d_index (written (new_cell_headers r) (?ss ! q))
                         + d_compressed_size (written (new_cell_headers r) (?ss ! q))))
                  = compressed"
      using b sz by blast
    show "drop (nat (cell_header_offset h + 388 * int (length (cell_headers self))))
              (output_bytes r)
             = concat (map ?f ?ss)"
      by (rule written_bytes(2)[OF assms])
    show "length (output_bytes r)
             = nat (cell_header_offset h + 388 * int (length (cell_headers self)))
               + length (concat (map ?f ?ss))"
      by (rule written_bytes(3)[OF assms])
  qed
qed

section \<open>The round trip\<close>

lemma hexdigit_table:
  "list_all (\<lambda>n. unhexdigit (hexdigit n) = Some n \<and> \<not> is_space (hexdigit n)) [0..<16]"
  by code_simp

lemma unhexdigit_hexdigit:
  assumes "n < 16"
  shows "unhexdigit (hexdigit n) = Some n" and "\<not> is_space (hexdigit n)"
  using hexdigit_table assms by (simp_all add: list_all_iff)

lemma fromhex_hex: "fromhex (hex bs) = Inr bs"
proof (induction bs)
  case Nil
  then show ?case by simp
next
  case (Cons b bs)
  have "unat b < 2 ^ LENGTH(8)" by (rule unsigned_less)
  then have h: "unat b div 16 < 16" by simp
  have l: "unat b mod 16 < 16" by simp
  have "(of_nat (16 * (unat b div 16) + unat b mod 16) :: byte) = b"
    by simp
  with Cons unhexdigit_hexdigit[OF h] unhexdigit_hexdigit[OF l] show ?case
    by simp
qed

lemma le_int_bounds: "0 \<le> le_int bs \<and> le_int bs < 256 ^ length bs"
proof (induction bs)
  case Nil
  then show ?case by simp
next
  case (Cons b bs)
  have "uint b < 256" "0 \<le> uint b" using uint_lt2p[of b] by simp_all
  with Cons show ?case by simp
qed

lemma pack_I_unpack:
  assumes "length bs = 4"
  shows "pack_I (unpack_I bs) = Inr bs"
proof -
  from le_int_bounds[of bs] assms have "0 \<le> le_int bs" "le_int bs < 2 ^ 32" by simp_all
  moreover have "le_bytes 4 (le_int bs) = bs"
    using le_bytes_le_int[of bs] assms by simp
  ultimately show ?thesis by (simp add: pack_I_def unpack_I_def)
qed

lemma pack_Q_unpack:
  assumes "length bs = 8"
  shows "pack_Q (le_int bs) = Inr bs"
proof -
  from le_int_bounds[of bs] assms have "0 \<le> le_int bs" "le_int bs < 2 ^ 64" by simp_all
  moreover have "le_bytes 8 (le_int bs) = bs"
    using le_bytes_le_int[of bs] assms by simp
  ultimately show ?thesis by (simp add: pack_Q_def)
qed

lemma length_slice: "b \<le> length xs \<Longrightarrow> length (slice xs a b) = b - a"
  by (simp add: slice_def)

lemma slice_append_next: "a \<le> b \<Longrightarrow> b \<le> c \<Longrightarrow> slice xs a b @ slice xs b c = slice xs a c"
proof -
  assume ab: "a \<le> b" and bc: "b \<le> c"
  have "take (c - a) (drop a xs) = take (b - a) (drop a xs) @ take (c - b) (drop (b - a) (drop a xs))"
    using ab bc by (metis take_add le_add_diff_inverse Nat.add_diff_assoc2)
  then show ?thesis using ab by (simp add: slice_def)
qed

lemma write_header_parse:
  assumes "parse_header d = Inr h"
  shows "write_header h [] = Inr (take 60 d)"
proof -
  from assms have len: "60 \<le> length d"
    by (auto simp: parse_header_def header_calcsize_eq split: if_splits)
  from assms len have m: "unpack_I (slice d 0 4) = MAGIC_KEY"
    and h: "h = \<lparr> version = unpack_I (slice d 4 8), uuid = hex (slice d 8 24),
                  creator_id = le_int (slice d 24 32),
                  width = unpack_I (slice d 32 36), height = unpack_I (slice d 36 40),
                  cell_header_offset = unpack_I (slice d 40 44),
                  cell_header_size = unpack_I (slice d 44 48),
                  some_val1 = unpack_I (slice d 48 52), some_val2 = unpack_I (slice d 52 56),
                  v_type = unpack_I (slice d 56 60) \<rparr>"
    by (auto simp: parse_header_def header_calcsize_eq Let_def split: if_splits)
  have p: "pack_I (unpack_I (slice d a (a + 4))) = Inr (slice d a (a + 4))" if "a + 4 \<le> 60" for a
    using that len by (intro pack_I_unpack) (simp add: length_slice)
  have q: "pack_Q (le_int (slice d 24 32)) = Inr (slice d 24 32)"
    using len by (intro pack_Q_unpack) (simp add: length_slice)
  have u: "pack_16s (slice d 8 24) = slice d 8 24"
    using len by (simp add: pack_16s_def slice_def)
  have pm: "pack_I MAGIC_KEY = Inr (slice d 0 4)"
    using p[of 0] m by simp
  have "write_header h [] = Inr (slice d 0 4 @ slice d 4 8 @ slice d 8 24 @ slice d 24 32
      @ slice d 32 36 @ slice d 36 40 @ slice d 40 44 @ slice d 44 48 @ slice d 48 52
      @ slice d 52 56 @ slice d 56 60)"
    unfolding write_header_def h
    using pm p[of 4] p[of 32] p[of 36] p[of 40] p[of 44] p[of 48] p[of 52] p[of 56] q u
    by (simp add: fromhex_hex)
  also have "slice d 0 4 @ slice d 4 8 @ slice d 8 24 @ slice d 24 32
      @ slice d 32 36 @ slice d 36 40 @ slice d 40 44 @ slice d 44 48 @ slice d 48 52
      @ slice d 52 56 @ slice d 56 60 = slice d 0 60"
    by (simp add: slice_append_next)
  finally show ?thesis by (simp add: slice_def)
qed

lemma parse_cell_headers_loop_ok:
  "parse_cell_headers_loop data off cs n acc = (chs, None) \<Longrightarrow>
     \<exists>new. chs = acc @ new \<and> length new = n
       \<and> (\<forall>j < n. parse_cell_header (slice data (off + j * cs) (off + j * cs + cs)) = Inr (new ! j))"
proof (induction n arbitrary: off acc)
  case 0
  then show ?case by simp
next
  case (Suc n)
  from Suc.prems obtain c where p: "parse_cell_header (slice data off (off + cs)) = Inr c"
    and r: "parse_cell_headers_loop data (off + cs) cs n (acc @ [c]) = (chs, None)"
    by (auto split: sum.splits)
  from Suc.IH[OF r] obtain new where new: "chs = (acc @ [c]) @ new" "length new = n"
    "\<forall>j < n. parse_cell_header (slice data (off + cs + j * cs) (off + cs + j * cs + cs))
               = Inr (new ! j)"
    by blast
  have e: "off + cs + j * cs = off + Suc j * cs" for j by simp
  have "parse_cell_header (slice data (off + j * cs) (off + j * cs + cs)) = Inr ((c # new) ! j)"
    if "j < Suc n" for j
  proof (cases j)
    case 0
    with p show ?thesis by simp
  next
    case (Suc j')
    with that have "j' < n" by simp
    with new(3)[unfolded e] have
      "parse_cell_header (slice data (off + Suc j' * cs) (off + Suc j' * cs + cs)) = Inr (new ! j')"
      by blast
    with Suc show ?thesis by simp
  qed
  with new(1,2) show ?case
    by (intro exI[of _ "c # new"]) simp
qed

lemma parse_cell_headers_loop_build:
  "(\<forall>j < n. parse_cell_header (slice data (off + j * cs) (off + j * cs + cs)) = Inr (f j)) \<Longrightarrow>
     parse_cell_headers_loop data off cs n acc = (acc @ map f [0..<n], None)"
proof (induction n arbitrary: off acc f)
  case 0
  then show ?case by simp
next
  case (Suc n)
  from Suc.prems[rule_format, of 0] have p: "parse_cell_header (slice data off (off + cs)) = Inr (f 0)"
    by simp
  have e: "off + cs + j * cs = off + Suc j * cs" for j by simp
  have "\<forall>j < n. parse_cell_header (slice data (off + cs + j * cs) (off + cs + j * cs + cs))
               = Inr (f (Suc j))"
  proof (intro allI impI)
    fix j assume "j < n"
    then have "Suc j < Suc n" by simp
    from Suc.prems[rule_format, OF this] show
      "parse_cell_header (slice data (off + cs + j * cs) (off + cs + j * cs + cs))
         = Inr (f (Suc j))"
      unfolding e .
  qed
  from Suc.IH[OF this, of "acc @ [f 0]"]
  have "parse_cell_headers_loop data (off + cs) cs n (acc @ [f 0])
          = (acc @ [f 0] @ map (\<lambda>j. f (Suc j)) [0..<n], None)"
    by simp
  moreover have "f 0 # map (\<lambda>j. f (Suc j)) [0..<n] = map f [0..<Suc n]"
    by (simp add: upt_conv_Cons map_Suc_upt[symmetric] del: upt_Suc)
  ultimately show ?case using p by simp
qed

lemma decode_categories_ok:
  "decode_categories env data ch cats acc = Inr cell \<Longrightarrow> distinct cats \<Longrightarrow>
     (\<forall>dt \<in> set cats. decode_cell_chunk env data ch dt
                         (map_option fst (read_write_functions env dt)) = Inr (cell dt))
     \<and> (\<forall>dt. dt \<notin> set cats \<longrightarrow> cell dt = acc dt)"
proof (induction cats arbitrary: acc)
  case Nil
  then show ?case by simp
next
  case (Cons c cats)
  from Cons.prems(1) obtain x where
    x: "decode_cell_chunk env data ch c (map_option fst (read_write_functions env c)) = Inr x"
    and r: "decode_categories env data ch cats (acc(c := x)) = Inr cell"
    by (auto simp: bind_Inr_iff)
  from Cons.prems(2) have d: "distinct cats" and cn: "c \<notin> set cats" by simp_all
  from Cons.IH[OF r d] cn x show ?case by auto
qed

lemma decode_categories_build:
  "(\<forall>dt \<in> set cats. \<exists>x. decode_cell_chunk env data ch dt
                         (map_option fst (read_write_functions env dt)) = Inr x) \<Longrightarrow>
     \<exists>cell. decode_categories env data ch cats acc = Inr cell"
proof (induction cats arbitrary: acc)
  case Nil
  then show ?case by simp
next
  case (Cons c cats)
  from Cons.prems obtain x where
    "decode_cell_chunk env data ch c (map_option fst (read_write_functions env c)) = Inr x"
    by auto
  moreover have "\<forall>dt \<in> set cats. \<exists>x. decode_cell_chunk env data ch dt
                         (map_option fst (read_write_functions env dt)) = Inr x"
    using Cons.prems by simp
  from Cons.IH[OF this, of "acc(c := x)"]
  obtain cell where "decode_categories env data ch cats (acc(c := x)) = Inr cell" by blast
  ultimately show ?case by simp
qed

lemma decode_cells_ok:
  "decode_cells env data chs acc = (wd, None) \<Longrightarrow>
     \<exists>new. wd = acc @ new \<and> length new = length chs
       \<and> (\<forall>j < length chs. decode_categories env data (chs ! j) categories (\<lambda>_. [])
                                = Inr (new ! j))"
proof (induction chs arbitrary: acc)
  case Nil
  then show ?case by simp
next
  case (Cons ch chs)
  from Cons.prems obtain cell where
    c: "decode_categories env data ch categories (\<lambda>_. []) = Inr cell"
    and r: "decode_cells env data chs (acc @ [cell]) = (wd, None)"
    by (auto split: sum.splits)
  from Cons.IH[OF r] obtain new where new: "wd = (acc @ [cell]) @ new" "length new = length chs"
    "\<forall>j < length chs. decode_categories env data (chs ! j) categories (\<lambda>_. []) = Inr (new ! j)"
    by blast
  have "decode_categories env data ((ch # chs) ! j) categories (\<lambda>_. []) = Inr ((cell # new) ! j)"
    if "j < length (ch # chs)" for j
    using that c new(3) by (cases j) simp_all
  with new(1,2) show ?case
    by (intro exI[of _ "cell # new"]) simp
qed

lemma decode_cells_build:
  "(\<forall>j < length chs. \<exists>cell. decode_categories env data (chs ! j) categories (\<lambda>_. []) = Inr cell)
     \<Longrightarrow> \<exists>wd. decode_cells env data chs acc = (wd, None)"
proof (induction chs arbitrary: acc)
  case Nil
  then show ?case by simp
next
  case (Cons ch chs)
  from Cons.prems[rule_format, of 0] obtain cell where
    c: "decode_categories env data ch categories (\<lambda>_. []) = Inr cell" by auto
  have "\<forall>j < length chs. \<exists>cell. decode_categories env data (chs ! j) categories (\<lambda>_. []) = Inr cell"
  proof (intro allI impI)
    fix j assume "j < length chs"
    then have "Suc j < length (ch # chs)" by simp
    from Cons.prems[rule_format, OF this]
    show "\<exists>cell. decode_categories env data (chs ! j) categories (\<lambda>_. []) = Inr cell"
      by simp
  qed
  from Cons.IH[OF this, of "acc @ [cell]"] c show ?case by simp
qed

lemma item_slot: "item f i = Inr v \<Longrightarrow> slot f i = v"
  by (auto simp: item_def slot_def split: field.splits if_splits)

lemma the_int_slot: "the_int f = Inr v \<Longrightarrow> slot f i = v"
  by (auto simp: the_int_def slot_def split: field.splits)

lemma decode_level_ok:
  assumes "decode_level env data chd dt pf k = Inr x"
  shows "decode_cell_chunk0 env data (d_index (descriptor_of chd k))
           (d_uncompressed_size (descriptor_of chd k)) (d_compressed_size (descriptor_of chd k))
           (count_slot chd k) dt pf = Inr x"
proof -
  from assms obtain index sz compressed count where
    i: "item (ch_index chd) k = Inr index" and s: "item (ch_size chd) k = Inr sz"
    and c: "item (ch_compressed chd) k = Inr compressed"
    and n: "(case ch_count chd of None \<Rightarrow> Inr None
             | Some f \<Rightarrow> bind (item f k) (\<lambda>c. Inr (Some c))) = Inr count"
    and d: "decode_cell_chunk0 env data index sz compressed count dt pf = Inr x"
    by (auto simp: decode_level_def bind_Inr_iff)
  from n have "count = count_slot chd k"
    by (auto simp: count_slot_def bind_Inr_iff item_slot split: option.splits)
  with d item_slot[OF i] item_slot[OF s] item_slot[OF c] show ?thesis
    by (simp add: descriptor_of_def)
qed

lemma decode_cell_chunk_ok:
  assumes "decode_cell_chunk env data ch dt pf = Inr xs"
  shows "length xs = arity (ch_index (ch dt))"
    and "\<forall>i < length xs.
           decode_cell_chunk0 env data (d_index (descriptor_of (ch dt) i))
             (d_uncompressed_size (descriptor_of (ch dt) i))
             (d_compressed_size (descriptor_of (ch dt) i))
             (count_slot (ch dt) i) dt pf = Inr (xs ! i)"
proof -
  have "length xs = arity (ch_index (ch dt))
    \<and> (\<forall>i < length xs.
           decode_cell_chunk0 env data (d_index (descriptor_of (ch dt) i))
             (d_uncompressed_size (descriptor_of (ch dt) i))
             (d_compressed_size (descriptor_of (ch dt) i))
             (count_slot (ch dt) i) dt pf = Inr (xs ! i))"
  proof (cases "ch_index (ch dt)")
    case (Multi idxs)
    with assms have s: "sequence (map (decode_level env data (ch dt) dt pf) [0..<length idxs])
                          = Inr xs"
      by (simp add: decode_cell_chunk_def)
    from sequence_map_Inr[OF s] have l: "length xs = length idxs"
      and k: "\<And>k. k < length idxs \<Longrightarrow> decode_level env data (ch dt) dt pf k = Inr (xs ! k)"
      by auto
    from l k Multi show ?thesis
      by (auto simp: arity_def dest!: decode_level_ok)
  next
    case (Single index)
    with assms obtain sz compressed count sc where
      s: "the_int (ch_size (ch dt)) = Inr sz"
      and c: "the_int (ch_compressed (ch dt)) = Inr compressed"
      and n: "(case ch_count (ch dt) of None \<Rightarrow> Inr None
               | Some f \<Rightarrow> bind (the_int f) (\<lambda>c. Inr (Some c))) = Inr count"
      and d: "decode_cell_chunk0 env data index sz compressed count dt pf = Inr sc"
      and xs: "xs = [sc]"
      by (auto simp: decode_cell_chunk_def bind_Inr_iff Let_def)
    from n have "count = count_slot (ch dt) 0"
      by (auto simp: count_slot_def bind_Inr_iff the_int_slot split: option.splits)
    with d xs Single the_int_slot[OF s, of 0] the_int_slot[OF c, of 0] show ?thesis
      by (simp add: arity_def descriptor_of_def slot_def)
  qed
  then show "length xs = arity (ch_index (ch dt))"
    and "\<forall>i < length xs.
           decode_cell_chunk0 env data (d_index (descriptor_of (ch dt) i))
             (d_uncompressed_size (descriptor_of (ch dt) i))
             (d_compressed_size (descriptor_of (ch dt) i))
             (count_slot (ch dt) i) dt pf = Inr (xs ! i)"
    by simp_all
qed

lemma sequence_map_build:
  "(\<forall>k < length xs. \<exists>y. f (xs ! k) = Inr y) \<Longrightarrow> \<exists>ys. sequence (map f xs) = Inr ys"
proof (induction xs)
  case Nil
  then show ?case by simp
next
  case (Cons x xs)
  from Cons.prems[rule_format, of 0] obtain y where y: "f x = Inr y" by auto
  have "\<forall>k < length xs. \<exists>y. f (xs ! k) = Inr y"
  proof (intro allI impI)
    fix k assume "k < length xs"
    then have "Suc k < length (x # xs)" by simp
    from Cons.prems[rule_format, OF this] show "\<exists>y. f (xs ! k) = Inr y" by simp
  qed
  from Cons.IH[OF this] y show ?case by auto
qed

lemma field_shape_multi:
  "field_shape f n \<Longrightarrow> Suc 0 < n \<Longrightarrow> k < n \<Longrightarrow> item f k = Inr (slot f k)"
  by (auto simp: field_shape_def item_def slot_def split: field.splits)

lemma field_shape_single:
  "field_shape f n \<Longrightarrow> \<not> Suc 0 < n \<Longrightarrow> the_int f = Inr (slot f 0)"
  by (auto simp: field_shape_def the_int_def slot_def split: field.splits)

lemma decode_cell_chunk_build:
  assumes ws: "well_shaped (ch dt) dt"
    and d: "\<forall>i < slot_count dt. \<exists>x.
           decode_cell_chunk0 env data (d_index (descriptor_of (ch dt) i))
             (d_uncompressed_size (descriptor_of (ch dt) i))
             (d_compressed_size (descriptor_of (ch dt) i))
             (count_slot (ch dt) i) dt pf = Inr x"
  shows "\<exists>xs. decode_cell_chunk env data ch dt pf = Inr xs"
proof (cases "1 < slot_count dt")
  case True
  let ?n = "slot_count dt"
  from ws True obtain idxs where idx: "ch_index (ch dt) = Multi idxs" "length idxs = ?n"
    by (auto simp: well_shaped_def field_shape_def split: field.splits)
  have "\<exists>y. decode_level env data (ch dt) dt pf k = Inr y" if "k < ?n" for k
  proof -
    from ws have
      i: "item (ch_index (ch dt)) k = Inr (slot (ch_index (ch dt)) k)"
      and s: "item (ch_size (ch dt)) k = Inr (slot (ch_size (ch dt)) k)"
      and c: "item (ch_compressed (ch dt)) k = Inr (slot (ch_compressed (ch dt)) k)"
      using True that by (simp_all add: well_shaped_def field_shape_multi[where n="slot_count dt"])
    have n: "(case ch_count (ch dt) of None \<Rightarrow> Inr None
             | Some f \<Rightarrow> bind (item f k) (\<lambda>c. Inr (Some c))) = Inr (count_slot (ch dt) k)"
      using ws True that
      by (auto simp: well_shaped_def count_slot_def field_shape_multi[where n="slot_count dt"]
               split: option.splits)
    from d that i s c n show ?thesis
      by (simp add: decode_level_def descriptor_of_def)
  qed
  then have "\<forall>k < length [0..<?n]. \<exists>y. decode_level env data (ch dt) dt pf ([0..<?n] ! k) = Inr y"
    by simp
  from sequence_map_build[OF this] idx show ?thesis
    by (simp add: decode_cell_chunk_def)
next
  case False
  from ws False obtain index where idx: "ch_index (ch dt) = Single index"
    by (auto simp: well_shaped_def field_shape_def split: field.splits)
  have "0 < slot_count dt" by (cases dt) (simp_all add: slot_count_def)
  with d obtain x where x: "decode_cell_chunk0 env data (d_index (descriptor_of (ch dt) 0))
             (d_uncompressed_size (descriptor_of (ch dt) 0))
             (d_compressed_size (descriptor_of (ch dt) 0))
             (count_slot (ch dt) 0) dt pf = Inr x"
    by blast
  from ws False have
    s: "the_int (ch_size (ch dt)) = Inr (slot (ch_size (ch dt)) 0)"
    and c: "the_int (ch_compressed (ch dt)) = Inr (slot (ch_compressed (ch dt)) 0)"
    by (simp_all add: well_shaped_def field_shape_single[where n="slot_count dt"])
  have n: "(case ch_count (ch dt) of None \<Rightarrow> Inr None
           | Some f \<Rightarrow> bind (the_int f) (\<lambda>c. Inr (Some c))) = Inr (count_slot (ch dt) 0)"
    using ws False
    by (auto simp: well_shaped_def count_slot_def field_shape_single[where n="slot_count dt"]
             split: option.splits)
  from x idx s c n show ?thesis
    by (simp add: decode_cell_chunk_def descriptor_of_def slot_def)
qed

lemma decode0_Placeholder:
  "decode_cell_chunk0 env data index sz compressed count dt pf = Inr (Placeholder a b c)
     \<Longrightarrow> index \<le> 0 \<or> compressed \<le> 0"
  by (auto simp: decode_cell_chunk0_def Let_def bind_Inr_iff split: if_splits option.splits)

lemma decode0_absent:
  "index \<le> 0 \<or> compressed \<le> 0 \<Longrightarrow>
     decode_cell_chunk0 env data index sz compressed count dt pf
       = Inr (Placeholder index sz compressed)"
  by (auto simp: decode_cell_chunk0_def)

lemma well_shaped_arity: "well_shaped chd dt \<Longrightarrow> arity (ch_index chd) = slot_count dt"
  by (auto simp: well_shaped_def field_shape_def arity_def split: field.splits)

lemma well_shaped_cell_header_of:
  "length us = 97 \<Longrightarrow> well_shaped (cell_header_of us dt) dt"
  by (cases dt)
     (simp_all add: well_shaped_def field_shape_def cell_header_of_def slot_count_def
        has_count_def slice_def)

lemma parse_cell_header_shape:
  assumes "parse_cell_header b = Inr ch"
  shows "well_shaped (ch dt) dt"
proof -
  from assms obtain us where "struct_unpack_i cell_format b = Inr us" "ch = cell_header_of us"
    by (auto simp: parse_cell_header_def bind_Inr_iff split: if_splits)
  with struct_unpack_i_length[of cell_format b us] show ?thesis
    by (simp add: well_shaped_cell_header_of sum_list_cell_format)
qed

lemma read_file_ok:
  assumes "read_file env fp raw = (t, None)"
  shows "\<exists>d h. original_data t = Some d \<and> parse_header d = Inr h \<and> header t = Some h
           \<and> parse_cell_headers h d = (cell_headers t, None)
           \<and> decode_cells env d (cell_headers t) [] = (world_data t, None)"
proof -
  let ?in = "if raw = None \<or> raw = Some [] then open_read env fp else Inr (the raw)"
  from assms obtain d where d: "?in = Inr d"
    by (cases ?in) (auto simp: read_file_def Let_def)
  from assms d obtain h where h: "parse_header d = Inr h"
    by (cases "parse_header d") (auto simp: read_file_def Let_def)
  obtain chs e where p: "parse_cell_headers h d = (chs, e)"
    by (cases "parse_cell_headers h d")
  from assms d h p have e: "e = None"
    by (cases e) (auto simp: read_file_def Let_def)
  obtain wd e' where c: "decode_cells env d chs [] = (wd, e')"
    by (cases "decode_cells env d chs []")
  from assms d h p e c have "e' = None"
    and "t = (init fp)\<lparr>original_data := Some d, header := Some h, cell_headers := chs,
                       world_data := wd\<rparr>"
    by (auto simp: read_file_def Let_def)
  with h p e c show ?thesis by auto
qed

lemma read_file_build:
  assumes "d \<noteq> []" and "parse_header d = Inr h" and "parse_cell_headers h d = (chs, None)"
    and "decode_cells env d chs [] = (wd, None)"
  shows "read_file env fp (Some d)
           = ((init fp)\<lparr>original_data := Some d, header := Some h, cell_headers := chs,
                       world_data := wd\<rparr>, None)"
  using assms by (simp add: read_file_def Let_def)

lemma first_parse_facts:
  assumes "read_file env fp raw = (t, None)" and h: "header t = Some h"
  shows "\<exists>d. parse_header d = Inr h"
    and "length (cell_headers t) = nat (width h * height h)"
    and "length (world_data t) = length (cell_headers t)"
    and "\<forall>j < length (cell_headers t). \<forall>dt. well_shaped ((cell_headers t ! j) dt) dt"
    and "slots_match t"
    and "\<forall>j < length (cell_headers t). \<forall>dt. \<forall>i < slot_count dt. \<forall>a b c.
           (world_data t ! j) dt ! i = Placeholder a b c
           \<longrightarrow> d_index (descriptor_of ((cell_headers t ! j) dt) i) \<le> 0
               \<or> d_compressed_size (descriptor_of ((cell_headers t ! j) dt) i) \<le> 0"
proof -
  from read_file_ok[OF assms(1)] h obtain d where
    ph: "parse_header d = Inr h"
    and pc: "parse_cell_headers h d = (cell_headers t, None)"
    and dc: "decode_cells env d (cell_headers t) [] = (world_data t, None)"
    by auto
  let ?chs = "cell_headers t" and ?wd = "world_data t"
  from ph show "\<exists>d. parse_header d = Inr h" by blast
  from pc have "parse_cell_headers_loop d (nat (cell_header_offset h)) (nat (cell_header_size h))
                  (nat (width h * height h)) [] = (?chs, None)"
    by (simp add: parse_cell_headers_def Let_def)
  from parse_cell_headers_loop_ok[OF this] obtain new where
    new: "?chs = new" "length new = nat (width h * height h)"
    "\<forall>j < nat (width h * height h).
        parse_cell_header (slice d (nat (cell_header_offset h) + j * nat (cell_header_size h))
          (nat (cell_header_offset h) + j * nat (cell_header_size h) + nat (cell_header_size h)))
          = Inr (new ! j)"
    by auto
  from new show n: "length ?chs = nat (width h * height h)" by simp
  from new show ws: "\<forall>j < length ?chs. \<forall>dt. well_shaped ((?chs ! j) dt) dt"
    by (auto intro: parse_cell_header_shape)
  from decode_cells_ok[OF dc] have l: "length ?wd = length ?chs"
    and c: "\<forall>j < length ?chs. decode_categories env d (?chs ! j) categories (\<lambda>_. [])
                                = Inr (?wd ! j)"
    by auto
  from l show "length ?wd = length ?chs" .
  have dec: "decode_cell_chunk env d (?chs ! j) dt
               (map_option fst (read_write_functions env dt)) = Inr ((?wd ! j) dt)"
    if "j < length ?chs" for j dt
    using decode_categories_ok[OF c[rule_format, OF that] distinct_categories]
    by (simp add: set_categories)
  have ar: "arity (ch_index ((?chs ! j) dt)) = slot_count dt" if "j < length ?chs" for j dt
    using ws that by (auto intro: well_shaped_arity)
  have len: "length ((?wd ! j) dt) = slot_count dt" if "j < length ?chs" for j dt
    using decode_cell_chunk_ok(1)[OF dec[OF that]] ar[OF that] by simp
  show "slots_match t"
    unfolding slots_match_iff one_entry_per_slot_iff
    using l len ar by simp
  show "\<forall>j < length ?chs. \<forall>dt. \<forall>i < slot_count dt. \<forall>a b c.
           (?wd ! j) dt ! i = Placeholder a b c
           \<longrightarrow> d_index (descriptor_of ((?chs ! j) dt) i) \<le> 0
               \<or> d_compressed_size (descriptor_of ((?chs ! j) dt) i) \<le> 0"
  proof (intro allI impI)
    fix j dt i a b c
    assume j: "j < length ?chs" and i: "i < slot_count dt"
      and p: "(?wd ! j) dt ! i = Placeholder a b c"
    from decode_cell_chunk_ok(2)[OF dec[OF j]] i len[OF j] p
    have "decode_cell_chunk0 env d (d_index (descriptor_of ((?chs ! j) dt) i))
             (d_uncompressed_size (descriptor_of ((?chs ! j) dt) i))
             (d_compressed_size (descriptor_of ((?chs ! j) dt) i))
             (count_slot ((?chs ! j) dt) i) dt
             (map_option fst (read_write_functions env dt)) = Inr (Placeholder a b c)"
      by auto
    then show "d_index (descriptor_of ((?chs ! j) dt) i) \<le> 0
               \<or> d_compressed_size (descriptor_of ((?chs ! j) dt) i) \<le> 0"
      by (rule decode0_Placeholder)
  qed
qed

lemma redecode_chunk:
  assumes lz: "lz4_round_trip env" and mp: "mip_readable env"
    and cc: "compressed_chunk env dt sc = Inr (raw, cb)"
    and sl: "0 < idx \<Longrightarrow> cb \<noteq> [] \<Longrightarrow> slice out (nat idx) (nat (idx + int (length cb))) = cb"
  shows "\<exists>x. decode_cell_chunk0 env out idx (int (length raw)) (int (length cb)) count dt
               (map_option fst (read_write_functions env dt)) = Inr x"
proof (cases "idx \<le> 0 \<or> int (length cb) \<le> 0")
  case True
  then show ?thesis by (simp add: decode0_absent)
next
  case False
  then have "0 < idx" "cb \<noteq> []" by auto
  from sl[OF this] have s: "slice out (nat idx) (nat (idx + int (length cb))) = cb" .
  from cc have e: "encode sc (map_option snd (read_write_functions env dt)) = Inr raw"
    and c: "lz4_compress env raw = Inr cb"
    by (auto simp: compressed_chunk_def bind_Inr_iff)
  from lz c have d: "lz4_decompress env cb (int (length raw)) = Inr raw"
    by (simp add: lz4_round_trip_def)
  show ?thesis
  proof (cases "dt = Mip")
    case True
    with e have "write_mip env (sc_data sc) (sc_meta_data sc) = Inr raw"
      by (simp add: encode_def read_write_functions_def)
    with mp have "\<exists>d'. read_mip env raw m' = Inr d'" for m'
      unfolding mip_readable_def by blast
    then obtain d' where "read_mip env raw \<lparr> m_index = idx, m_compressed = int (length cb),
        m_size = int (length raw), m_count = count \<rparr> = Inr d'"
      by blast
    with False s d True show ?thesis
      by (simp add: decode_cell_chunk0_def Let_def read_write_functions_def decode_def)
  next
    case False
    with \<open>\<not> (idx \<le> 0 \<or> int (length cb) \<le> 0)\<close> s d show ?thesis
      by (simp add: decode_cell_chunk0_def Let_def read_write_functions_def)
  qed
qed

lemma slice_middle:
  "length pre = a \<Longrightarrow> slice (pre @ mid @ post) a (a + length mid) = mid"
  by (simp add: slice_def)

lemma length_values_of:
  assumes "create_cell_header ch = Inr b"
  shows "length (values_of ch) = 97"
  using struct_unpack_i_length[OF create_cell_header_values(1)[OF assms]]
  by (simp add: sum_list_cell_format)

lemma reparse:
  assumes r1: "read_file env fp raw = (t1, None)"
    and h: "header t1 = Some h"
    and cs: "cell_header_size h = 388"
    and w: "write_file env t1 validate = Inr r"
    and lz: "lz4_round_trip env"
    and mp: "mip_readable env"
  shows "\<exists>t2. read_file env fp2 (Some (output_bytes r)) = (t2, None)
           \<and> header t2 = Some h
           \<and> cell_headers t2 = map (\<lambda>c. cell_header_of (values_of c)) (new_cell_headers r)"
proof -
  let ?chs1 = "cell_headers t1" and ?wd = "world_data t1" and ?chs' = "new_cell_headers r"
  let ?n = "length ?chs1"
  let ?out = "output_bytes r"
  let ?off = "60 + 388 * ?n"
  let ?f = "\<lambda>c. cell_header_of (values_of c)"
  note fp = first_parse_facts[OF r1 h]
  from fp(1) obtain d0 where ph0: "parse_header d0 = Inr h" by blast
  note sm = fp(5)
  note lay = write_file_layout[OF w sm h]
  from lay(2) write_header_parse[OF ph0] have
    out: "?out = take 60 d0 @ concat (map cell_header_bytes ?chs') @ concat (map (cell_blob env) ?wd)"
    and l60: "length (take 60 d0) = 60"
    by auto
  from ph0 have ld0: "60 \<le> length d0"
    by (auto simp: parse_header_def header_calcsize_eq split: if_splits)
  have lout: "60 \<le> length ?out" using out l60 by simp
  then have ne: "?out \<noteq> []" by auto
  have t60: "take 60 ?out = take 60 d0" using out l60 by simp
  have P1: "parse_header ?out = Inr h"
    using parse_header_take[OF lout] parse_header_take[OF ld0] t60 ph0 by simp
  have lH: "length (concat (map cell_header_bytes ?chs')) = 388 * ?n"
  proof -
    have "\<forall>b \<in> set (map cell_header_bytes ?chs'). length b = 388"
      using lay(3,4) by (auto simp: in_set_conv_nth)
    from length_concat_fixed[OF this] lay(3) show ?thesis by simp
  qed
  have cr: "create_cell_header (?chs' ! j) = Inr (cell_header_bytes (?chs' ! j))"
    if "j < ?n" for j
    using lay(4) that by blast
  have pj: "parse_cell_header (slice ?out (60 + j * 388) (60 + j * 388 + 388)) = Inr (?f (?chs' ! j))"
    if "j < ?n" for j
  proof -
    have "slice ?out (60 + 388 * j) (60 + 388 * j + 388) = cell_header_bytes (?chs' ! j)"
      by (rule slice_output_header[OF w sm that])
    with parse_created[OF cr[OF that]] show ?thesis by (simp add: mult.commute)
  qed
  have P2: "parse_cell_headers h ?out = (map ?f ?chs', None)"
  proof -
    have "parse_cell_headers_loop ?out 60 388 ?n []
            = ([] @ map (\<lambda>j. ?f (?chs' ! j)) [0..<?n], None)"
      by (rule parse_cell_headers_loop_build) (use pj in blast)
    moreover have "map (\<lambda>j. ?f (?chs' ! j)) [0..<?n] = map ?f ?chs'"
      using lay(3) by (intro nth_equalityI) simp_all
    ultimately show ?thesis
      using lay(1) cs fp(2) by (simp add: parse_cell_headers_def Let_def)
  qed
  have lenw: "length ((?wd ! j) dt) = slot_count dt" if "j < ?n" for j dt
  proof -
    from sm that have "length ((?wd ! j) dt) = arity (ch_index ((?chs1 ! j) dt))"
      by (simp add: slots_match_iff one_entry_per_slot_iff)
    with fp(4) that show ?thesis by (auto dest: well_shaped_arity)
  qed
  have dec0: "\<exists>x. decode_cell_chunk0 env ?out (d_index (descriptor_of (?f (?chs' ! j) dt) i))
             (d_uncompressed_size (descriptor_of (?f (?chs' ! j) dt) i))
             (d_compressed_size (descriptor_of (?f (?chs' ! j) dt) i))
             (count_slot (?f (?chs' ! j) dt) i) dt
             (map_option fst (read_write_functions env dt)) = Inr x"
    if j: "j < ?n" and i: "i < slot_count dt" for j dt i
  proof -
    let ?old = "descriptor_of ((?chs1 ! j) dt) i"
    have il: "i < length ((?wd ! j) dt)" using lenw[OF j] i by simp
    have d: "descriptor_of (?f (?chs' ! j) dt) i
               = expected_descriptor env ?off (blob_before env ?wd j dt i) dt ((?wd ! j) dt ! i) ?old"
      using cell_header_of_values(1)[OF i, of "?chs' ! j"] lay(4) j il by simp
    show ?thesis
    proof (cases "(?wd ! j) dt ! i")
      case (Placeholder a b c)
      with d have "descriptor_of (?f (?chs' ! j) dt) i = ?old"
        by (simp add: expected_descriptor_def)
      moreover from fp(6) j i Placeholder have "d_index ?old \<le> 0 \<or> d_compressed_size ?old \<le> 0"
        by blast
      ultimately show ?thesis by (simp add: decode0_absent)
    next
      case (Chunk sc)
      then have "Chunk sc \<in> set ((?wd ! j) dt)" using il by (metis nth_mem)
      with lay(5) j obtain raw cb where cc: "compressed_chunk env dt sc = Inr (raw, cb)"
        by blast
      let ?before = "blob_before env ?wd j dt i"
      from d Chunk cc have dd: "descriptor_of (?f (?chs' ! j) dt) i
          = \<lparr> d_index = int (length ?before) + int ?off, d_compressed_size = int (length cb),
              d_uncompressed_size = int (length raw) \<rparr>"
        by (simp add: expected_descriptor_def)
      from sm j have jw: "j < length ?wd" by (simp add: slots_match_iff)
      from blob_split[OF jw il, of env] Chunk cc obtain rest where
        B: "concat (map (cell_blob env) ?wd) = ?before @ cb @ rest"
        by (auto simp: chunk_payload_def)
      have "?out = (take 60 d0 @ concat (map cell_header_bytes ?chs') @ ?before) @ cb @ rest"
        using out B by simp
      moreover have "length (take 60 d0 @ concat (map cell_header_bytes ?chs') @ ?before)
                       = ?off + length ?before"
        using l60 lH by simp
      ultimately have "slice ?out (?off + length ?before) (?off + length ?before + length cb) = cb"
        by (metis slice_middle)
      moreover have "nat (int (length ?before) + int ?off) = ?off + length ?before"
        "nat (int (length ?before) + int ?off + int (length cb))
           = ?off + length ?before + length cb"
        by simp_all
      ultimately have sl: "slice ?out (nat (int (length ?before) + int ?off))
          (nat (int (length ?before) + int ?off + int (length cb))) = cb"
        by simp
      from redecode_chunk[OF lz mp cc sl] dd show ?thesis by simp
    qed
  qed
  have dcc: "\<exists>x. decode_cell_chunk env ?out (?f (?chs' ! j)) dt
                    (map_option fst (read_write_functions env dt)) = Inr x"
    if j: "j < ?n" for j dt
  proof (rule decode_cell_chunk_build)
    show "well_shaped (?f (?chs' ! j) dt) dt"
      using length_values_of[OF cr[OF j]] by (rule well_shaped_cell_header_of)
    show "\<forall>i < slot_count dt. \<exists>x.
       decode_cell_chunk0 env ?out (d_index (descriptor_of (?f (?chs' ! j) dt) i))
        (d_uncompressed_size (descriptor_of (?f (?chs' ! j) dt) i))
        (d_compressed_size (descriptor_of (?f (?chs' ! j) dt) i))
        (count_slot (?f (?chs' ! j) dt) i) dt (map_option fst (read_write_functions env dt)) = Inr x"
      using dec0[OF j] by blast
  qed
  have "\<forall>j < length (map ?f ?chs'). \<exists>cell.
          decode_categories env ?out (map ?f ?chs' ! j) categories (\<lambda>_. []) = Inr cell"
  proof (intro allI impI)
    fix j assume "j < length (map ?f ?chs')"
    then have j: "j < ?n" using lay(3) by simp
    have "\<exists>cell. decode_categories env ?out (?f (?chs' ! j)) categories (\<lambda>_. []) = Inr cell"
      by (rule decode_categories_build) (use dcc[OF j] in blast)
    then show "\<exists>cell. decode_categories env ?out (map ?f ?chs' ! j) categories (\<lambda>_. []) = Inr cell"
      using j lay(3) by simp
  qed
  from decode_cells_build[OF this] obtain wd2 where
    P3: "decode_cells env ?out (map ?f ?chs') [] = (wd2, None)" by blast
  from read_file_build[OF ne P1 P2 P3, of fp2] show ?thesis
    by (intro exI[of _ "(init fp2)\<lparr>original_data := Some ?out, header := Some h,
           cell_headers := map ?f ?chs', world_data := wd2\<rparr>"]) simp
qed

section \<open>The result of the validator\<close>










lemma validate_write_imported:
  "\<not> builtins_is_module env \<Longrightarrow> validate_write env self new_data = ([], Inl AttributeError)"
  by (simp add: validate_write_def validate_try_def set_builtins_print_def)

lemma validate_write_reparsed:
  "builtins_is_module env \<Longrightarrow> read_file env None (Some new_data) = (tile, None) \<Longrightarrow>
     validate_write env self new_data = ([], Inr True)"
  by (simp add: validate_write_def validate_try_def set_builtins_print_def)

lemma validate_write_raised:
  assumes "builtins_is_module env" and "read_file env None (Some new_data) = (tile, Some e)"
  shows "validate_write env self new_data =
     (case header tile of
        None \<Rightarrow> ([], Inl AttributeError)
      | Some tile_header \<Rightarrow>
         (case header self of
            None \<Rightarrow> ([], Inl TypeError)
          | Some self_header \<Rightarrow>
             (let ws1 = header_mismatches self_header tile_header
              in case mismatch_cells (cell_headers self) 0 (cell_headers tile) of
                   (ws2, Some e2) \<Rightarrow> (ws1 @ ws2, Inl e2)
                 | (ws2, None) \<Rightarrow>
                    (case overflow_cells (length new_data) 0 (cell_headers tile) of
                       (ws3, Some e3) \<Rightarrow> (ws1 @ ws2 @ ws3, Inl e3)
                     | (ws3, None) \<Rightarrow> (ws1 @ ws2 @ ws3, Inr False)))))"
  using assms by (simp add: validate_write_def validate_try_def set_builtins_print_def)

lemma validate_write_not_True:
  assumes "builtins_is_module env" and "read_file env None (Some new_data) = (tile, Some e)"
  shows "snd (validate_write env self new_data) \<noteq> Inr True"
  unfolding validate_write_raised[OF assms]
  by (auto simp: Let_def split: option.splits prod.splits)


text \<open>
  Claim C7. When the module is run as the program, the validator returns \<open>True\<close> if and
  only if the re-parsing of the written bytes raised no exception, and whenever it
  returns a boolean, that boolean says whether the re-parsing raised; the warnings have
  no part in it. When the module is imported, the first assignment to
  \<open>__builtins__.print\<close> raises, the handler's assignment raises again, and the validator
  raises \<open>AttributeError\<close> on every input, also on bytes whose re-parsing raises nothing.
\<close>

theorem validator_result:
  "(builtins_is_module env \<longrightarrow>
      (snd (validate_write env self new_data) = Inr True
         \<longleftrightarrow> snd (read_file env None (Some new_data)) = None)
      \<and> (\<forall>b. snd (validate_write env self new_data) = Inr b
            \<longrightarrow> (b \<longleftrightarrow> snd (read_file env None (Some new_data)) = None)))
   \<and> (\<not> builtins_is_module env \<longrightarrow>
        validate_write env self new_data = ([], Inl AttributeError)
        \<and> write_file env self True \<noteq> Inr r)"
proof (intro conjI impI)
  assume bm: "builtins_is_module env"
  obtain tile err where rd: "read_file env None (Some new_data) = (tile, err)"
    by (cases "read_file env None (Some new_data)")
  show t: "snd (validate_write env self new_data) = Inr True
         \<longleftrightarrow> snd (read_file env None (Some new_data)) = None"
  proof (cases err)
    case None
    with bm rd show ?thesis by (simp add: validate_write_reparsed)
  next
    case (Some e)
    with validate_write_not_True[OF bm, of new_data tile e self] rd show ?thesis by simp
  qed
  show "\<forall>b. snd (validate_write env self new_data) = Inr b
            \<longrightarrow> (b \<longleftrightarrow> snd (read_file env None (Some new_data)) = None)"
    using t by auto
next
  assume "\<not> builtins_is_module env"
  then show "validate_write env self new_data = ([], Inl AttributeError)"
    by (rule validate_write_imported)
next
  assume nb: "\<not> builtins_is_module env"
  show "write_file env self True \<noteq> Inr r"
  proof
    assume "write_file env self True = Inr r"
    then show False
      by (auto simp: write_file_def bind_Inr_iff Let_def validate_write_imported[OF nb]
          split: option.splits if_splits prod.splits)
  qed
qed

lemma decode0_present:
  assumes "decode_cell_chunk0 env data index sz compressed count dt pf = Inr x"
    and "0 < index" and "0 < compressed"
  shows "\<exists>sc. x = Chunk sc
           \<and> lz4_decompress env (slice data (nat index) (nat (index + compressed))) sz
               = Inr (sc_original_data sc)"
  using assms
  by (auto simp: decode_cell_chunk0_def Let_def bind_Inr_iff decode_def
      split: if_splits option.splits)

lemma first_parse_entries:
  assumes "read_file env fp raw = (t, None)" and h: "header t = Some h"
    and j: "j < length (cell_headers t)" and i: "i < slot_count dt"
  shows "d_index (descriptor_of ((cell_headers t ! j) dt) i) \<le> 0
           \<or> d_compressed_size (descriptor_of ((cell_headers t ! j) dt) i) \<le> 0
         \<Longrightarrow> (world_data t ! j) dt ! i
               = Placeholder (d_index (descriptor_of ((cell_headers t ! j) dt) i))
                   (d_uncompressed_size (descriptor_of ((cell_headers t ! j) dt) i))
                   (d_compressed_size (descriptor_of ((cell_headers t ! j) dt) i))"
    and "0 < d_index (descriptor_of ((cell_headers t ! j) dt) i)
           \<and> 0 < d_compressed_size (descriptor_of ((cell_headers t ! j) dt) i)
         \<Longrightarrow> \<exists>sc d. (world_data t ! j) dt ! i = Chunk sc \<and> original_data t = Some d
               \<and> lz4_decompress env
                    (slice d (nat (d_index (descriptor_of ((cell_headers t ! j) dt) i)))
                       (nat (d_index (descriptor_of ((cell_headers t ! j) dt) i)
                             + d_compressed_size (descriptor_of ((cell_headers t ! j) dt) i))))
                    (d_uncompressed_size (descriptor_of ((cell_headers t ! j) dt) i))
                   = Inr (sc_original_data sc)"
proof -
  let ?chs = "cell_headers t" and ?wd = "world_data t"
  let ?D = "descriptor_of ((?chs ! j) dt) i"
  from read_file_ok[OF assms(1)] h obtain d where
    od: "original_data t = Some d"
    and dc: "decode_cells env d ?chs [] = (?wd, None)"
    by auto
  from decode_cells_ok[OF dc] j
  have c: "decode_categories env d (?chs ! j) categories (\<lambda>_. []) = Inr (?wd ! j)"
    by auto
  have dec: "decode_cell_chunk env d (?chs ! j) dt
               (map_option fst (read_write_functions env dt)) = Inr ((?wd ! j) dt)"
    using decode_categories_ok[OF c distinct_categories] by (simp add: set_categories)
  from first_parse_facts(4)[OF assms(1) h] j have "well_shaped ((?chs ! j) dt) dt" by simp
  then have ar: "arity (ch_index ((?chs ! j) dt)) = slot_count dt" by (rule well_shaped_arity)
  from decode_cell_chunk_ok[OF dec] ar i
  have e: "decode_cell_chunk0 env d (d_index ?D) (d_uncompressed_size ?D) (d_compressed_size ?D)
             (count_slot ((?chs ! j) dt) i) dt (map_option fst (read_write_functions env dt))
           = Inr ((?wd ! j) dt ! i)"
    by simp
  show "(?wd ! j) dt ! i
          = Placeholder (d_index ?D) (d_uncompressed_size ?D) (d_compressed_size ?D)"
    if "d_index ?D \<le> 0 \<or> d_compressed_size ?D \<le> 0"
    using e by (simp add: decode0_absent[OF that])
  show "\<exists>sc d. (?wd ! j) dt ! i = Chunk sc \<and> original_data t = Some d
               \<and> lz4_decompress env
                    (slice d (nat (d_index ?D)) (nat (d_index ?D + d_compressed_size ?D)))
                    (d_uncompressed_size ?D)
                   = Inr (sc_original_data sc)"
    if "0 < d_index ?D \<and> 0 < d_compressed_size ?D"
    using decode0_present[OF e] that od by blast
qed

lemma count_slot_kept:
  assumes "well_shaped old dt" and "ch_count new = ch_count old" and "i < slot_count dt"
    and "ch dt = new"
  shows "count_slot (cell_header_of (values_of ch) dt) i = count_slot old i"
proof (cases "has_count dt")
  case True
  with assms(1) obtain f where f: "ch_count old = Some f"
    by (auto simp: well_shaped_def split: option.splits)
  from cell_header_of_values(2)[OF assms(3) True, of ch] assms(4) assms(2) f
  show ?thesis by (simp add: count_slot_def)
next
  case False
  with assms(1) have "ch_count old = None"
    by (auto simp: well_shaped_def split: option.splits)
  with cell_header_of_values(3)[OF False, of ch] show ?thesis by (simp add: count_slot_def)
qed

text \<open>
  Claim C1, as the code has it. A file that \<open>read_file\<close> reads without an exception,
  whose header gives 388 as the size of a cell header, is written by \<open>write_file\<close>;
  when the codecs give back what they were given, the bytes written are read again
  without an exception. The second parse has the header of the first and as many cell
  headers. Every slot has the count of the first parse. A slot whose descriptor was
  absent in the first parse (an index or a compressed size that is not positive) has the
  descriptor of the first parse, field by field. A slot whose descriptor was present
  holds a chunk, and its descriptor is computed anew: the index is the place that
  \<open>write_file\<close> gave to the compressed bytes, after the header, the cell headers and the
  compressed bytes of the chunks before it; the compressed size and the uncompressed size
  are the lengths of the bytes that \<open>write_file\<close> compressed and encoded.
\<close>

theorem round_trip:
  assumes "read_file env fp raw = (t1, None)"
    and "header t1 = Some h"
    and "cell_header_size h = 388"
    and "write_file env t1 validate = Inr r"
    and "lz4_round_trip env"
    and "mip_readable env"
  shows "\<exists>t2. read_file env fp2 (Some (output_bytes r)) = (t2, None)
     \<and> header t2 = header t1
     \<and> length (cell_headers t2) = length (cell_headers t1)
     \<and> (\<forall>j < length (cell_headers t1). \<forall>dt. \<forall>i < slot_count dt.
          count_slot ((cell_headers t2 ! j) dt) i = count_slot ((cell_headers t1 ! j) dt) i
          \<and> (d_index (descriptor_of ((cell_headers t1 ! j) dt) i) \<le> 0
               \<or> d_compressed_size (descriptor_of ((cell_headers t1 ! j) dt) i) \<le> 0
             \<longrightarrow> descriptor_of ((cell_headers t2 ! j) dt) i
                   = descriptor_of ((cell_headers t1 ! j) dt) i)
          \<and> (0 < d_index (descriptor_of ((cell_headers t1 ! j) dt) i)
               \<and> 0 < d_compressed_size (descriptor_of ((cell_headers t1 ! j) dt) i)
             \<longrightarrow> (\<exists>sc raw compressed.
                    (world_data t1 ! j) dt ! i = Chunk sc
                  \<and> compressed_chunk env dt sc = Inr (raw, compressed)
                  \<and> descriptor_of ((cell_headers t2 ! j) dt) i
                      = \<lparr> d_index = cell_header_offset h
                                     + 388 * int (length (cell_headers t1))
                                     + int (length (blob_before env (world_data t1) j dt i)),
                          d_compressed_size = int (length compressed),
                          d_uncompressed_size = int (length raw) \<rparr>)))"
proof -
  let ?chs = "cell_headers t1" and ?wd = "world_data t1"
  let ?n = "length ?chs"
  from reparse[OF assms, of fp2] obtain t2 where
    rd: "read_file env fp2 (Some (output_bytes r)) = (t2, None)"
    and h2: "header t2 = Some h"
    and c2: "cell_headers t2 = map (\<lambda>c. cell_header_of (values_of c)) (new_cell_headers r)"
    by blast
  note fp = first_parse_facts[OF assms(1,2)]
  note lay = write_file_layout[OF assms(4) fp(5) assms(2)]
  have l2: "length (cell_headers t2) = ?n" using c2 lay(3) by simp
  have body: "count_slot ((cell_headers t2 ! j) dt) i = count_slot ((?chs ! j) dt) i
          \<and> (d_index (descriptor_of ((?chs ! j) dt) i) \<le> 0
               \<or> d_compressed_size (descriptor_of ((?chs ! j) dt) i) \<le> 0
             \<longrightarrow> descriptor_of ((cell_headers t2 ! j) dt) i = descriptor_of ((?chs ! j) dt) i)
          \<and> (0 < d_index (descriptor_of ((?chs ! j) dt) i)
               \<and> 0 < d_compressed_size (descriptor_of ((?chs ! j) dt) i)
             \<longrightarrow> (\<exists>sc raw compressed.
                    (?wd ! j) dt ! i = Chunk sc
                  \<and> compressed_chunk env dt sc = Inr (raw, compressed)
                  \<and> descriptor_of ((cell_headers t2 ! j) dt) i
                      = \<lparr> d_index = cell_header_offset h + 388 * int ?n
                                     + int (length (blob_before env ?wd j dt i)),
                          d_compressed_size = int (length compressed),
                          d_uncompressed_size = int (length raw) \<rparr>))"
    if j: "j < ?n" and i: "i < slot_count dt" for j dt i
  proof -
    let ?new = "new_cell_headers r ! j"
    let ?D1 = "descriptor_of ((?chs ! j) dt) i"
    have e2: "cell_headers t2 ! j = cell_header_of (values_of ?new)"
      using c2 j lay(3) by simp
    from fp(4) j have ws: "well_shaped ((?chs ! j) dt) dt" by simp
    from fp(5) j ws have len: "length ((?wd ! j) dt) = slot_count dt"
      by (simp add: slots_match_iff one_entry_per_slot_iff well_shaped_arity)
    from lay(4) j have cnt: "ch_count (?new dt) = ch_count ((?chs ! j) dt)" by simp
    from lay(4) j i len
    have ex: "descriptor_of (?new dt) i
                = expected_descriptor env (60 + 388 * ?n) (blob_before env ?wd j dt i) dt
                    ((?wd ! j) dt ! i) ?D1"
      by simp
    have d2: "descriptor_of ((cell_headers t2 ! j) dt) i = descriptor_of (?new dt) i"
      unfolding e2 by (rule cell_header_of_values(1)[OF i])
    have a: "count_slot ((cell_headers t2 ! j) dt) i = count_slot ((?chs ! j) dt) i"
      unfolding e2 by (rule count_slot_kept[OF ws cnt i]) simp
    have b: "descriptor_of ((cell_headers t2 ! j) dt) i = ?D1"
      if "d_index ?D1 \<le> 0 \<or> d_compressed_size ?D1 \<le> 0"
      using first_parse_entries(1)[OF assms(1,2) j i that] d2 ex
      by (simp add: expected_descriptor_def)
    have c: "\<exists>sc raw compressed.
                    (?wd ! j) dt ! i = Chunk sc
                  \<and> compressed_chunk env dt sc = Inr (raw, compressed)
                  \<and> descriptor_of ((cell_headers t2 ! j) dt) i
                      = \<lparr> d_index = cell_header_offset h + 388 * int ?n
                                     + int (length (blob_before env ?wd j dt i)),
                          d_compressed_size = int (length compressed),
                          d_uncompressed_size = int (length raw) \<rparr>"
      if "0 < d_index ?D1 \<and> 0 < d_compressed_size ?D1"
    proof -
      from first_parse_entries(2)[OF assms(1,2) j i that] obtain sc where
        sc: "(?wd ! j) dt ! i = Chunk sc" by blast
      then have "Chunk sc \<in> set ((?wd ! j) dt)" using i len by (metis nth_mem)
      with lay(5) j obtain raw :: bytes and compressed where
        cc: "compressed_chunk env dt sc = Inr (raw, compressed)" by blast
      from d2 ex sc cc lay(1) show ?thesis
        by (simp add: expected_descriptor_def)
    qed
    from a b c show ?thesis by blast
  qed
  have "\<forall>j < ?n. \<forall>dt. \<forall>i < slot_count dt.
          count_slot ((cell_headers t2 ! j) dt) i = count_slot ((?chs ! j) dt) i
          \<and> (d_index (descriptor_of ((?chs ! j) dt) i) \<le> 0
               \<or> d_compressed_size (descriptor_of ((?chs ! j) dt) i) \<le> 0
             \<longrightarrow> descriptor_of ((cell_headers t2 ! j) dt) i = descriptor_of ((?chs ! j) dt) i)
          \<and> (0 < d_index (descriptor_of ((?chs ! j) dt) i)
               \<and> 0 < d_compressed_size (descriptor_of ((?chs ! j) dt) i)
             \<longrightarrow> (\<exists>sc raw compressed.
                    (?wd ! j) dt ! i = Chunk sc
                  \<and> compressed_chunk env dt sc = Inr (raw, compressed)
                  \<and> descriptor_of ((cell_headers t2 ! j) dt) i
                      = \<lparr> d_index = cell_header_offset h + 388 * int ?n
                                     + int (length (blob_before env ?wd j dt i)),
                          d_compressed_size = int (length compressed),
                          d_uncompressed_size = int (length raw) \<rparr>))"
    by (intro allI impI) (rule body, assumption+)
  with rd h2 assms(2) l2 show ?thesis
    by (intro exI[of _ t2]) simp
qed

section \<open>Evaluation on the concrete tile\<close>

lemma example_tile_read: "snd (read_file example_env None (Some example_file)) = None"
  by code_simp

lemma example_tile_write:
  "\<exists>r. write_file example_env example_tile False = Inr r"
proof -
  have "isl (write_file example_env example_tile False) = False"
    by code_simp
  then show ?thesis by (cases "write_file example_env example_tile False") auto
qed

theorem header_layout_is_60_bytes_witness:
  "parse_header [] = Inl StructError
   \<and> parse_header example_file = parse_header (take 60 example_file)
   \<and> length example_header_bytes = 60
   \<and> (\<exists>h'. header example_tile = Some h' \<and> cell_header_offset h' = 60)"
proof -
  obtain r where w: "write_file example_env example_tile False = Inr r"
    using example_tile_write by blast
  have l: "60 \<le> length example_file"
    by (simp add: example_file_def example_header_bytes_def)
  have h: "write_header example_header [] = Inr example_header_bytes"
    by code_simp
  show ?thesis
    using header_layout_is_60_bytes[of "[]" example_header "[]" example_header_bytes
            example_env example_tile False r]
      header_layout_is_60_bytes[of example_file example_header "[]" example_header_bytes
            example_env example_tile False r] w l h
    by simp
qed

text \<open>
  Claim C5 as stated fails: the serialized header of the concrete tile has 60 bytes, and
  these 60 bytes alone parse back to the header.
\<close>

theorem header_is_not_64_bytes_counterexample:
  "write_header example_header [] = Inr example_header_bytes
   \<and> length example_header_bytes \<noteq> 64
   \<and> parse_header example_header_bytes = Inr example_header"
  by code_simp

lemma example_validate_ok:
  "validate_write example_env example_tile example_file = ([], Inr True)"
  by code_simp

lemma example_validate_truncated:
  "validate_write example_env example_tile example_truncated
     = ([CellHeaderOverflow 0 Mip 450 450, CellHeaderOverflow 0 Clutter 453 450], Inr False)"
  by code_simp

lemma example_env_mode:
  "builtins_is_module example_env" "\<not> builtins_is_module example_env_imported"
  by (simp_all add: example_env_def example_env_imported_def)

theorem validator_result_witness:
  "snd (validate_write example_env example_tile example_file) = Inr True
   \<and> snd (read_file example_env None (Some example_file)) = None
   \<and> snd (validate_write example_env example_tile example_truncated) = Inr False
   \<and> snd (read_file example_env None (Some example_truncated)) \<noteq> None
   \<and> validate_write example_env_imported example_tile example_file = ([], Inl AttributeError)
   \<and> isl (write_file example_env_imported example_tile True)"
proof -
  have "write_file example_env_imported example_tile True \<noteq> Inr r" for r
    using validator_result[of example_env_imported example_tile example_file r]
      example_env_mode
    by simp
  then have "isl (write_file example_env_imported example_tile True)"
    by (cases "write_file example_env_imported example_tile True") auto
  then show ?thesis
    using validator_result[of example_env example_tile example_file]
      validator_result[of example_env example_tile example_truncated]
      validator_result[of example_env_imported example_tile example_file]
      example_env_mode example_validate_ok example_validate_truncated
    by simp
qed




lemma example_tile_facts:
  "header example_tile = Some example_header
   \<and> length (cell_headers example_tile) = 1
   \<and> slots_match example_tile
   \<and> length ((world_data example_tile ! 0) Mip) = 6
   \<and> (world_data example_tile ! 0) Mip ! 0 = Chunk example_mip_chunk
   \<and> (world_data example_tile ! 0) Mip ! 1 = Placeholder 0 0 0"
  by code_simp

theorem offset_reconstruction_witness:
  "\<exists>r raw compressed.
       write_file example_env example_tile False = Inr r
     \<and> encode example_mip_chunk (map_option snd (read_write_functions example_env Mip)) = Inr raw
     \<and> lz4_compress example_env raw = Inr compressed
     \<and> blob_before example_env (world_data example_tile) 0 Mip (Suc 0)
         = blob_before example_env (world_data example_tile) 0 Mip 0 @ compressed
     \<and> descriptor_of ((new_cell_headers r ! 0) Mip) 0
         = \<lparr> d_index = int (length (blob_before example_env (world_data example_tile) 0 Mip 0))
               + (cell_header_offset example_header
                  + 388 * int (length (cell_headers example_tile))),
             d_compressed_size = int (length compressed),
             d_uncompressed_size = int (length raw) \<rparr>"
proof -
  obtain r where w: "write_file example_env example_tile False = Inr r"
    using example_tile_write by blast
  have "0 < length (cell_headers example_tile)"
    and "0 < length ((world_data example_tile ! 0) Mip)"
    using example_tile_facts by simp_all
  from offset_reconstruction[OF w _ _ this, of example_header example_mip_chunk]
    example_tile_facts w
  show ?thesis by blast
qed

theorem bounds_invariant_witness:
  "\<exists>r. write_file example_env example_tile False = Inr r
     \<and> d_index (descriptor_of ((new_cell_headers r ! 0) Mip) 0)
         + d_compressed_size (descriptor_of ((new_cell_headers r ! 0) Mip) 0)
       \<le> int (length (output_bytes r))"
proof -
  obtain r where w: "write_file example_env example_tile False = Inr r"
    using example_tile_write by blast
  have "0 < length (cell_headers example_tile)"
    and "0 < length ((world_data example_tile ! 0) Mip)"
    using example_tile_facts by simp_all
  from bounds_invariant[OF w _ this, of example_mip_chunk] example_tile_facts w
  show ?thesis by blast
qed

theorem absent_descriptor_stability_witness:
  "\<exists>r written.
       write_file example_env example_tile False = Inr r
     \<and> descriptor_of ((new_cell_headers r ! 0) Mip) 1
         = descriptor_of ((cell_headers example_tile ! 0) Mip) 1
     \<and> parse_cell_header (slice (output_bytes r) (60 + 388 * 0) (60 + 388 * 0 + 388))
         = Inr written
     \<and> descriptor_of (written Mip) 1 = descriptor_of ((cell_headers example_tile ! 0) Mip) 1"
proof -
  obtain r where w: "write_file example_env example_tile False = Inr r"
    using example_tile_write by blast
  have "0 < length (cell_headers example_tile)"
    and "1 < length ((world_data example_tile ! 0) Mip)"
    and "(world_data example_tile ! 0) Mip ! 1 = Placeholder 0 0 0"
    using example_tile_facts by simp_all
  from absent_descriptor_stability[OF w _ this] example_tile_facts w
  show ?thesis by (auto simp: slot_count_def)
qed

lemma example_slots:
  "6 < length (slots_of (world_data example_tile))
   \<and> is_chunk (entry (world_data example_tile) (slots_of (world_data example_tile) ! 0))
   \<and> is_chunk (entry (world_data example_tile) (slots_of (world_data example_tile) ! 6))
   \<and> list_all (\<lambda>m. \<not> is_chunk (entry (world_data example_tile)
                                  (slots_of (world_data example_tile) ! m))) [1..<6]"
  by code_simp

lemma example_payloads:
  "payload_at example_env (world_data example_tile) (slots_of (world_data example_tile) ! 0)
     = [0x10, 0x41]
   \<and> payload_at example_env (world_data example_tile) (slots_of (world_data example_tile) ! 6)
     = [0x20, 0x42, 0x43]
   \<and> concat (map (payload_at example_env (world_data example_tile))
               (slots_of (world_data example_tile)))
     = [0x10, 0x41, 0x20, 0x42, 0x43]"
  by code_simp

theorem blob_contiguity_witness:
  "\<exists>r. write_file example_env example_tile False = Inr r
     \<and> d_index (written (new_cell_headers r) (slots_of (world_data example_tile) ! 0))
         = cell_header_offset example_header + 388 * int (length (cell_headers example_tile))
     \<and> d_index (written (new_cell_headers r) (slots_of (world_data example_tile) ! 6))
         = d_index (written (new_cell_headers r) (slots_of (world_data example_tile) ! 0))
           + d_compressed_size
               (written (new_cell_headers r) (slots_of (world_data example_tile) ! 0))
     \<and> slice (output_bytes r)
          (nat (d_index (written (new_cell_headers r) (slots_of (world_data example_tile) ! 0))))
          (nat (d_index (written (new_cell_headers r) (slots_of (world_data example_tile) ! 0))
                + d_compressed_size
                    (written (new_cell_headers r) (slots_of (world_data example_tile) ! 0))))
         = [0x10, 0x41]
     \<and> slice (output_bytes r)
          (nat (d_index (written (new_cell_headers r) (slots_of (world_data example_tile) ! 6))))
          (nat (d_index (written (new_cell_headers r) (slots_of (world_data example_tile) ! 6))
                + d_compressed_size
                    (written (new_cell_headers r) (slots_of (world_data example_tile) ! 6))))
         = [0x20, 0x42, 0x43]
     \<and> drop (nat (cell_header_offset example_header
                    + 388 * int (length (cell_headers example_tile)))) (output_bytes r)
         = [0x10, 0x41, 0x20, 0x42, 0x43]"
proof -
  let ?wd = "world_data example_tile"
  obtain r where w: "write_file example_env example_tile False = Inr r"
    using example_tile_write by blast
  have sm: "slots_match example_tile" and h: "header example_tile = Some example_header"
    using example_tile_facts by simp_all
  have q6: "6 < length (slots_of ?wd)"
    and c0: "is_chunk (entry ?wd (slots_of ?wd ! 0))"
    and c6: "is_chunk (entry ?wd (slots_of ?wd ! 6))"
    using example_slots by simp_all
  from q6 have q0: "0 < length (slots_of ?wd)" by linarith
  have nb: "\<forall>m. 0 < m \<and> m < 6 \<longrightarrow> \<not> is_chunk (entry ?wd (slots_of ?wd ! m))"
    using example_slots by (auto simp: list_all_iff)
  note t0 = blob_contiguity[OF w sm h q0 c0]
  note t6 = blob_contiguity[OF w sm h q6 c6]
  from t0
  have a: "d_index (written (new_cell_headers r) (slots_of ?wd ! 0))
         = cell_header_offset example_header + 388 * int (length (cell_headers example_tile))"
    by simp
  from t6 c0 nb
  have b: "d_index (written (new_cell_headers r) (slots_of ?wd ! 6))
         = d_index (written (new_cell_headers r) (slots_of ?wd ! 0))
           + d_compressed_size (written (new_cell_headers r) (slots_of ?wd ! 0))"
    by simp
  from t0 example_payloads
  have c: "slice (output_bytes r)
          (nat (d_index (written (new_cell_headers r) (slots_of ?wd ! 0))))
          (nat (d_index (written (new_cell_headers r) (slots_of ?wd ! 0))
                + d_compressed_size (written (new_cell_headers r) (slots_of ?wd ! 0))))
         = [0x10, 0x41]"
    by auto
  from t6 example_payloads
  have d: "slice (output_bytes r)
          (nat (d_index (written (new_cell_headers r) (slots_of ?wd ! 6))))
          (nat (d_index (written (new_cell_headers r) (slots_of ?wd ! 6))
                + d_compressed_size (written (new_cell_headers r) (slots_of ?wd ! 6))))
         = [0x20, 0x42, 0x43]"
    by auto
  from t0 example_payloads
  have e: "drop (nat (cell_header_offset example_header
                    + 388 * int (length (cell_headers example_tile)))) (output_bytes r)
         = [0x10, 0x41, 0x20, 0x42, 0x43]"
    by simp
  from w a b c d e show ?thesis by blast
qed

lemma example_env_codecs: "lz4_round_trip example_env" "mip_readable example_env"
proof -
  have "literal_decompress c (int (length raw)) = Inr raw"
    if "literal_compress raw = Inr c" for raw c
  proof -
    from that have l: "length raw < 15" and c: "c = of_nat (16 * length raw) # raw"
      by (auto simp: literal_compress_def split: if_splits)
    have "unat (of_nat (16 * length raw) :: byte) = (16 * length raw) mod 2 ^ LENGTH(8)"
      by (rule unat_of_nat)
    also have "\<dots> = 16 * length raw" using l by simp
    finally have "unat (of_nat (16 * length raw) :: byte) = 16 * length raw" .
    with l c show ?thesis by (simp add: literal_decompress_def)
  qed
  then show "lz4_round_trip example_env"
    by (simp add: lz4_round_trip_def example_env_def)
  show "mip_readable example_env"
    by (simp add: mip_readable_def example_env_def)
qed

lemma example_mip_compressed:
  "compressed_chunk example_env Mip example_mip_chunk = Inr ([0x41], [0x10, 0x41])
   \<and> blob_before example_env (world_data example_tile) 0 Mip 0 = []
   \<and> descriptor_of ((cell_headers example_tile ! 0) Mip) 0
       = \<lparr> d_index = 449, d_compressed_size = 2, d_uncompressed_size = 1 \<rparr>
   \<and> descriptor_of ((cell_headers example_tile ! 0) Mip) 1
       = \<lparr> d_index = 0, d_compressed_size = 0, d_uncompressed_size = 0 \<rparr>
   \<and> cell_header_size example_header = 388
   \<and> cell_header_offset example_header = 60"
  by code_simp

theorem round_trip_witness:
  "\<exists>r t2. write_file example_env example_tile False = Inr r
     \<and> read_file example_env None (Some (output_bytes r)) = (t2, None)
     \<and> header t2 = header example_tile
     \<and> length (cell_headers t2) = length (cell_headers example_tile)
     \<and> count_slot ((cell_headers t2 ! 0) Mip) 0 = count_slot ((cell_headers example_tile ! 0) Mip) 0
     \<and> descriptor_of ((cell_headers t2 ! 0) Mip) 1
         = descriptor_of ((cell_headers example_tile ! 0) Mip) 1
     \<and> descriptor_of ((cell_headers t2 ! 0) Mip) 0
         = \<lparr> d_index = 448, d_compressed_size = 2, d_uncompressed_size = 1 \<rparr>"
proof -
  obtain r where w: "write_file example_env example_tile False = Inr r"
    using example_tile_write by blast
  have rd: "read_file example_env None (Some example_file) = (example_tile, None)"
    using example_tile_read
    by (cases "read_file example_env None (Some example_file)") (simp add: example_tile_def)
  have h: "header example_tile = Some example_header"
    and n: "length (cell_headers example_tile) = 1"
    and e0: "(world_data example_tile ! 0) Mip ! 0 = Chunk example_mip_chunk"
    using example_tile_facts by simp_all
  have cs: "cell_header_size example_header = 388"
    and co: "cell_header_offset example_header = 60"
    and cc: "compressed_chunk example_env Mip example_mip_chunk = Inr ([0x41], [0x10, 0x41])"
    and bb: "blob_before example_env (world_data example_tile) 0 Mip 0 = []"
    and d0: "descriptor_of ((cell_headers example_tile ! 0) Mip) 0
               = \<lparr> d_index = 449, d_compressed_size = 2, d_uncompressed_size = 1 \<rparr>"
    and d1: "descriptor_of ((cell_headers example_tile ! 0) Mip) 1
               = \<lparr> d_index = 0, d_compressed_size = 0, d_uncompressed_size = 0 \<rparr>"
    using example_mip_compressed by simp_all
  from round_trip[OF rd h cs w example_env_codecs, of None] obtain t2 where
    r2: "read_file example_env None (Some (output_bytes r)) = (t2, None)"
    and h2: "header t2 = header example_tile"
    and l2: "length (cell_headers t2) = length (cell_headers example_tile)"
    and sl: "\<And>j dt i. j < length (cell_headers example_tile) \<Longrightarrow> i < slot_count dt \<Longrightarrow>
          count_slot ((cell_headers t2 ! j) dt) i = count_slot ((cell_headers example_tile ! j) dt) i
          \<and> (d_index (descriptor_of ((cell_headers example_tile ! j) dt) i) \<le> 0
               \<or> d_compressed_size (descriptor_of ((cell_headers example_tile ! j) dt) i) \<le> 0
             \<longrightarrow> descriptor_of ((cell_headers t2 ! j) dt) i
                   = descriptor_of ((cell_headers example_tile ! j) dt) i)
          \<and> (0 < d_index (descriptor_of ((cell_headers example_tile ! j) dt) i)
               \<and> 0 < d_compressed_size (descriptor_of ((cell_headers example_tile ! j) dt) i)
             \<longrightarrow> (\<exists>sc raw compressed.
                    (world_data example_tile ! j) dt ! i = Chunk sc
                  \<and> compressed_chunk example_env dt sc = Inr (raw, compressed)
                  \<and> descriptor_of ((cell_headers t2 ! j) dt) i
                      = \<lparr> d_index = cell_header_offset example_header
                                     + 388 * int (length (cell_headers example_tile))
                                     + int (length (blob_before example_env
                                                      (world_data example_tile) j dt i)),
                          d_compressed_size = int (length compressed),
                          d_uncompressed_size = int (length raw) \<rparr>))"
    by blast
  have s0: "(0 :: nat) < slot_count Mip" and s1: "(1 :: nat) < slot_count Mip"
    by (simp_all add: slot_count_def)
  have j0: "0 < length (cell_headers example_tile)" using n by simp
  from sl[OF j0 s0]
  have a: "count_slot ((cell_headers t2 ! 0) Mip) 0
             = count_slot ((cell_headers example_tile ! 0) Mip) 0"
    by simp
  from sl[OF j0 s1] d1
  have b: "descriptor_of ((cell_headers t2 ! 0) Mip) 1
             = descriptor_of ((cell_headers example_tile ! 0) Mip) 1"
    by simp
  from sl[OF j0 s0] d0 e0 cc bb co n
  have c: "descriptor_of ((cell_headers t2 ! 0) Mip) 0
             = \<lparr> d_index = 448, d_compressed_size = 2, d_uncompressed_size = 1 \<rparr>"
    by auto
  from w r2 h2 l2 a b c show ?thesis by blast
qed

text \<open>
  Claim C1 as stated fails. The concrete file is read without an exception, with the
  first \<open>mip\<close> level at index 449 and the \<open>clutter\<close> chunk at index 451; written and read
  again, they are at the indices 448 and 450, the byte that belonged to no chunk being
  gone. In the file that declares 4 bytes of payload for the \<open>clutter\<close> chunk, the
  second parse has the uncompressed size 2; in the file that declares 5 compressed bytes
  where 3 are left, the second parse has the compressed size 3.
\<close>

theorem round_trip_counterexample:
  "parsed_descriptor example_env example_file 0 Mip 0
     = Inr \<lparr> d_index = 449, d_compressed_size = 2, d_uncompressed_size = 1 \<rparr>
   \<and> reparsed_descriptor example_env example_file 0 Mip 0
     = Inr \<lparr> d_index = 448, d_compressed_size = 2, d_uncompressed_size = 1 \<rparr>
   \<and> parsed_descriptor example_env example_file 0 Clutter 0
     = Inr \<lparr> d_index = 451, d_compressed_size = 3, d_uncompressed_size = 2 \<rparr>
   \<and> reparsed_descriptor example_env example_file 0 Clutter 0
     = Inr \<lparr> d_index = 450, d_compressed_size = 3, d_uncompressed_size = 2 \<rparr>
   \<and> parsed_descriptor example_env example_oversized 0 Clutter 0
     = Inr \<lparr> d_index = 451, d_compressed_size = 3, d_uncompressed_size = 4 \<rparr>
   \<and> reparsed_descriptor example_env example_oversized 0 Clutter 0
     = Inr \<lparr> d_index = 450, d_compressed_size = 3, d_uncompressed_size = 2 \<rparr>
   \<and> parsed_descriptor example_env example_overflowing 0 Clutter 0
     = Inr \<lparr> d_index = 451, d_compressed_size = 5, d_uncompressed_size = 2 \<rparr>
   \<and> reparsed_descriptor example_env example_overflowing 0 Clutter 0
     = Inr \<lparr> d_index = 450, d_compressed_size = 3, d_uncompressed_size = 2 \<rparr>"
  by code_simp

end
